theory Spec2Isabelle
  imports Main "HOL-Library.Multiset" "HOL-Library.Sublist" "HOL-Library.Word"
begin

section \<open>Errors, frames and channels\<close>

text \<open>
  Go's \<open>error\<close> values. \<open>nil\<close> is \<open>None\<close>; \<open>io.EOF\<close> is the sentinel \<open>EOF\<close>;
  \<open>grpc.Errorf(code, format, args...)\<close> keeps its code, its format string and its
  arguments unformatted; every other error is a \<open>Failure\<close> with its message.
\<close>

datatype code = Internal | Unimplemented

datatype err = EOF | Failure string | Errorf code string "err option list"

type_synonym error = "err option"

type_synonym bytes = "8 word list"

type_synonym metadata = "(string \<times> string list) list"

text \<open>
  Modelled from the spec: the frame type, declared with the codec outside the files at
  hand. A frame is an opaque byte sequence with no additional structure.
\<close>

record frame =
  payload :: bytes

text \<open>
  A buffered Go channel: the queued values (oldest first), the capacity given to
  \<open>make\<close>, and whether \<open>close\<close> has been called. A send blocks while the buffer is
  full and panics on a closed channel.
\<close>

record 'a chan =
  buf :: "'a list"
  cap :: nat
  closed :: bool

definition make_chan :: "nat \<Rightarrow> 'a chan" where
  "make_chan n = \<lparr>buf = [], cap = n, closed = False\<rparr>"

datatype 'a send_outcome = Delivered "'a chan" | WouldBlock | SendOnClosed

definition chan_send :: "'a \<Rightarrow> 'a chan \<Rightarrow> 'a send_outcome" where
  "chan_send x c =
     (if closed c then SendOnClosed
      else if length (buf c) < cap c then Delivered (c\<lparr>buf := buf c @ [x]\<rparr>)
      else WouldBlock)"

section \<open>Streams as the proxy sees them\<close>

text \<open>
  What one \<open>RecvMsg\<close> call returns: a frame (error \<open>nil\<close>), or an error, which is
  \<open>io.EOF\<close> at the end of input.
\<close>

datatype recv_result = Received frame | RecvError err

datatype stream_op = OpSendMsg frame error | OpCloseSend

text \<open>
  A backend stream (\<open>grpc.ClientStream\<close>). The peer's behaviour is a script: the results
  of the successive \<open>RecvMsg\<close> calls (a call beyond the script never returns), the result
  of \<open>Header()\<close>, the metadata \<open>Trailer()\<close> returns, and the results of the successive
  \<open>SendMsg\<close> calls (\<open>nil\<close> beyond the script). \<open>sendlog\<close> records the \<open>SendMsg\<close> and
  \<open>CloseSend\<close> calls made on the stream, in order.
\<close>

record client_stream =
  recv_script :: "recv_result list"
  header_result :: "err + metadata"
  trailer_md :: metadata
  send_script :: "error list"
  sendlog :: "stream_op list"

definition send_msg :: "frame \<Rightarrow> client_stream \<Rightarrow> client_stream \<times> error" where
  "send_msg f d =
     (case send_script d of
        [] \<Rightarrow> (d\<lparr>sendlog := sendlog d @ [OpSendMsg f None]\<rparr>, None)
      | r # rs \<Rightarrow> (d\<lparr>send_script := rs, sendlog := sendlog d @ [OpSendMsg f r]\<rparr>, r))"

definition close_send :: "client_stream \<Rightarrow> client_stream" where
  "close_send d = d\<lparr>sendlog := sendlog d @ [OpCloseSend]\<rparr>"

datatype log_entry =
    LogSendError nat err
  | LogRecvError nat err
  | LogHeaderError nat err
  | LogSetHeaderError nat err

section \<open>The broadcast pipeline: forwardServerToClients\<close>

text \<open>
  The inner loop \<open>for i := range destinations\<close>: send the frame to each destination in
  turn; a failed send is logged and \<open>break\<close> leaves the loop, so the destinations after
  the failing one are not sent this frame.
\<close>

fun send_to_all :: "nat \<Rightarrow> frame \<Rightarrow> client_stream list \<Rightarrow> client_stream list \<times> log_entry list" where
  "send_to_all i f [] = ([], [])"
| "send_to_all i f (d # ds) =
     (case send_msg f d of
        (d', None) \<Rightarrow> (case send_to_all (Suc i) f ds of (ds', l) \<Rightarrow> (d' # ds', l))
      | (d', Some e) \<Rightarrow> (d' # ds, [LogSendError i e]))"

record s2c =
  destinations :: "client_stream list"
  s2c_ret :: "error chan"
  s2c_log :: "log_entry list"
  s2c_returned :: bool

definition s2c_init :: "client_stream list \<Rightarrow> s2c" where
  "s2c_init ds = \<lparr>destinations = ds, s2c_ret = make_chan 1, s2c_log = [], s2c_returned = False\<rparr>"

text \<open>
  The goroutine of \<open>forwardServerToClients\<close>, run against the results of the downstream
  stream's successive \<open>RecvMsg\<close> calls. When the script is used up the goroutine is
  blocked in \<open>RecvMsg\<close> and has not returned. On \<open>io.EOF\<close> it calls \<open>CloseSend\<close> on
  every destination and returns, sending nothing on \<open>ret\<close>; on another error it sends
  the error on \<open>ret\<close> and returns (\<open>ret\<close> is fresh, holds one value and is never
  closed, so that send neither blocks nor panics).
\<close>

fun forwardServerToClients_loop :: "recv_result list \<Rightarrow> s2c \<Rightarrow> s2c" where
  "forwardServerToClients_loop [] st = st"
| "forwardServerToClients_loop (RecvError e # rest) st =
     (if e = EOF then st\<lparr>destinations := map close_send (destinations st), s2c_returned := True\<rparr>
      else (case chan_send (Some e) (s2c_ret st) of
              Delivered c \<Rightarrow> st\<lparr>s2c_ret := c, s2c_returned := True\<rparr>
            | _ \<Rightarrow> st))"
| "forwardServerToClients_loop (Received f # rest) st =
     (case send_to_all 0 f (destinations st) of
        (ds, l) \<Rightarrow> forwardServerToClients_loop rest (st\<lparr>destinations := ds, s2c_log := s2c_log st @ l\<rparr>))"

definition forwardServerToClients :: "recv_result list \<Rightarrow> client_stream list \<Rightarrow> s2c" where
  "forwardServerToClients src ds = forwardServerToClients_loop src (s2c_init ds)"

section \<open>The fan-in pipeline: forwardClientsToServerUnary\<close>

text \<open>
  The downstream stream (\<open>grpc.ServerStream\<close>) as the handler sees it: the result of
  \<open>grpc.MethodFromServerStream\<close>, its context, the results of its successive \<open>RecvMsg\<close>
  calls, and the errors its \<open>SetHeader\<close> and \<open>SendMsg\<close> return.
\<close>

record call_context =
  incoming_md :: "metadata option"
  outgoing_md :: "metadata option"

record server_stream =
  method_name :: "string option"
  stream_ctx :: call_context
  down_recv_script :: "recv_result list"
  set_header_result :: "metadata \<Rightarrow> error"
  send_msg_result :: "frame \<Rightarrow> error"

text \<open>
  What the goroutines of the fan-in pipeline do, in the order it happens. The index is
  that of the follower goroutine (the \<open>i\<close> of the source).
\<close>

datatype event =
    EvRecv nat recv_result
  | EvSetHeader nat metadata
  | EvSetTrailer nat metadata
  | EvQueue nat bytes
  | EvLog log_entry
  | EvSendMsg frame

text \<open>
  A follower goroutine is either about to call \<open>src.RecvMsg\<close> in iteration \<open>j\<close>, or
  about to send the payload it received on \<open>payloadCh\<close>, or has returned.
\<close>

datatype follower_pc = AtRecvMsg nat | AtPayloadSend nat bytes | Exited

record follower =
  fpc :: follower_pc
  src :: client_stream

text \<open>
  One step of follower \<open>i\<close>: the new follower, the events of the step, the new
  \<open>payloadCh\<close>, and whether the step panicked. \<open>None\<close>: the goroutine cannot move (it
  is blocked in \<open>RecvMsg\<close> or on the full channel, or it has returned).
\<close>

definition follower_step ::
  "server_stream \<Rightarrow> nat \<Rightarrow> follower \<Rightarrow> bytes chan \<Rightarrow> (follower \<times> event list \<times> bytes chan \<times> bool) option" where
  "follower_step dst i fo ch =
     (case fpc fo of
        Exited \<Rightarrow> None
      | AtRecvMsg j \<Rightarrow>
          (case recv_script (src fo) of
             [] \<Rightarrow> None
           | r # rest \<Rightarrow>
               (let s = (src fo)\<lparr>recv_script := rest\<rparr> in
                case r of
                  RecvError e \<Rightarrow>
                    if e = EOF
                    then Some (\<lparr>fpc = Exited, src = s\<rparr>, [EvRecv i r, EvSetTrailer i (trailer_md s)], ch, False)
                    else Some (\<lparr>fpc = Exited, src = s\<rparr>, [EvRecv i r, EvLog (LogRecvError i e)], ch, False)
                | Received f \<Rightarrow>
                    if j = 0
                    then (case header_result s of
                            Inl e \<Rightarrow>
                              Some (\<lparr>fpc = Exited, src = s\<rparr>, [EvRecv i r, EvLog (LogHeaderError i e)], ch, False)
                          | Inr md \<Rightarrow>
                              Some (\<lparr>fpc = AtPayloadSend j (payload f), src = s\<rparr>,
                                    [EvRecv i r, EvSetHeader i md] @
                                      (case set_header_result dst md of
                                         None \<Rightarrow> []
                                       | Some e \<Rightarrow> [EvLog (LogSetHeaderError i e)]),
                                    ch, False))
                    else Some (\<lparr>fpc = AtPayloadSend j (payload f), src = s\<rparr>, [EvRecv i r], ch, False)))
      | AtPayloadSend j p \<Rightarrow>
          (case chan_send p ch of
             Delivered ch' \<Rightarrow> Some (fo\<lparr>fpc := AtRecvMsg (Suc j)\<rparr>, [EvQueue i p], ch', False)
           | WouldBlock \<Rightarrow> None
           | SendOnClosed \<Rightarrow> Some (fo, [], ch, True)))"

text \<open>
  The coordinator goroutine: \<open>wg.Wait()\<close> returns once every follower has returned
  (each runs its deferred \<open>wg.Done()\<close>); then it closes \<open>payloadCh\<close>, appends every
  queued payload to \<open>merged\<close>, calls \<open>dst.SendMsg\<close> with the merged frame, and sends the
  result on \<open>ret\<close>.
\<close>

datatype coordinator_pc = AtWait | AtRetSend error | CoordinatorExited

record c2s =
  followers :: "follower list"
  payloadCh :: "bytes chan"
  coordinator :: coordinator_pc
  c2s_ret :: "error chan"
  events :: "event list"
  panicked :: bool

definition c2s_init :: "client_stream list \<Rightarrow> c2s" where
  "c2s_init sources =
     \<lparr>followers = map (\<lambda>s. \<lparr>fpc = AtRecvMsg 0, src = s\<rparr>) sources,
      payloadCh = make_chan (length sources),
      coordinator = AtWait,
      c2s_ret = make_chan 1,
      events = [],
      panicked = False\<rparr>"

definition merge_payloads :: "bytes list \<Rightarrow> bytes" where
  "merge_payloads bs = foldl (\<lambda>merged b. merged @ b) [] bs"

definition coordinator_step :: "server_stream \<Rightarrow> c2s \<Rightarrow> c2s option" where
  "coordinator_step dst st =
     (case coordinator st of
        AtWait \<Rightarrow>
          if list_all (\<lambda>fo. fpc fo = Exited) (followers st)
          then (let merged = merge_payloads (buf (payloadCh st));
                    m = \<lparr>payload = merged\<rparr>
                in Some (st\<lparr>payloadCh := (payloadCh st)\<lparr>buf := [], closed := True\<rparr>,
                            events := events st @ [EvSendMsg m],
                            coordinator := AtRetSend (send_msg_result dst m)\<rparr>))
          else None
      | AtRetSend r \<Rightarrow>
          (case chan_send r (c2s_ret st) of
             Delivered c \<Rightarrow> Some (st\<lparr>c2s_ret := c, coordinator := CoordinatorExited\<rparr>)
           | WouldBlock \<Rightarrow> None
           | SendOnClosed \<Rightarrow> Some (st\<lparr>panicked := True\<rparr>))
      | CoordinatorExited \<Rightarrow> None)"

datatype goroutine = Follower nat | Coordinator

definition c2s_step :: "server_stream \<Rightarrow> goroutine \<Rightarrow> c2s \<Rightarrow> c2s option" where
  "c2s_step dst g st =
     (if panicked st then None
      else case g of
        Coordinator \<Rightarrow> coordinator_step dst st
      | Follower i \<Rightarrow>
          if i < length (followers st)
          then (case follower_step dst i (followers st ! i) (payloadCh st) of
                  None \<Rightarrow> None
                | Some (fo, evs, ch, p) \<Rightarrow>
                    Some (st\<lparr>followers := (followers st)[i := fo],
                             payloadCh := ch,
                             events := events st @ evs,
                             panicked := p\<rparr>))
          else None)"

text \<open>
  A schedule names the goroutine that moves next; naming one that cannot move leaves the
  state as it is.
\<close>

fun c2s_run :: "server_stream \<Rightarrow> goroutine list \<Rightarrow> c2s \<Rightarrow> c2s" where
  "c2s_run dst [] st = st"
| "c2s_run dst (g # gs) st =
     c2s_run dst gs (case c2s_step dst g st of None \<Rightarrow> st | Some st' \<Rightarrow> st')"

definition forwardClientsToServerUnary :: "server_stream \<Rightarrow> client_stream list \<Rightarrow> goroutine list \<Rightarrow> c2s" where
  "forwardClientsToServerUnary dst sources sched = c2s_run dst sched (c2s_init sources)"

text \<open>The frames a state has sent downstream, and the payloads it has queued, in order.\<close>

fun sent_frames :: "event list \<Rightarrow> frame list" where
  "sent_frames [] = []"
| "sent_frames (EvSendMsg m # es) = m # sent_frames es"
| "sent_frames (_ # es) = sent_frames es"

text \<open>
  Read off a backend's script: the payloads of the frames its \<open>RecvMsg\<close> returns before
  the first error, and of these the ones the follower puts on \<open>payloadCh\<close>: all of
  them, or none when \<open>Header()\<close> fails after the first frame.
\<close>

fun received_payloads :: "recv_result list \<Rightarrow> bytes list" where
  "received_payloads [] = []"
| "received_payloads (RecvError e # rest) = []"
| "received_payloads (Received f # rest) = payload f # received_payloads rest"

definition queued_payloads :: "client_stream \<Rightarrow> bytes list" where
  "queued_payloads s =
     (case header_result s of
        Inl e \<Rightarrow> []
      | Inr md \<Rightarrow> received_payloads (recv_script s))"

section \<open>The handler\<close>

text \<open>
  A backend connection (\<open>*grpc.ClientConn\<close>): what \<open>grpc.NewClientStream\<close> returns on
  it for a method name.
\<close>

record client_conn =
  new_client_stream :: "string \<Rightarrow> err + client_stream"

record 'c route =
  out_ctx :: "call_context option"
  backend_conns :: "'c list"
  route_err :: error

text \<open>
  The loop that fills \<open>clientStreams\<close>: the streams opened so far, and the error of the
  first \<open>grpc.NewClientStream\<close> that failed.
\<close>

fun new_client_streams :: "string \<Rightarrow> client_conn list \<Rightarrow> client_stream list \<times> error" where
  "new_client_streams fullMethodName [] = ([], None)"
| "new_client_streams fullMethodName (c # cs) =
     (case new_client_stream c fullMethodName of
        Inl e \<Rightarrow> ([], Some e)
      | Inr s \<Rightarrow> (case new_client_streams fullMethodName cs of (ss, r) \<Rightarrow> (s # ss, r)))"

text \<open>
  A receive in a \<open>select\<close> case is ready when the channel holds a value, or is closed
  (it then yields the zero value, \<open>nil\<close>).
\<close>

definition chan_ready :: "error chan \<Rightarrow> error option" where
  "chan_ready c = (case buf c of x # _ \<Rightarrow> Some x | [] \<Rightarrow> if closed c then Some None else None)"

datatype select_case = S2C error | C2S error

text \<open>
  The two-way \<open>select\<close>: it blocks while neither channel is ready, and takes either
  case when both are (\<open>first\<close> stands for Go's random choice).
\<close>

definition select2 :: "error chan \<Rightarrow> error chan \<Rightarrow> bool \<Rightarrow> select_case option" where
  "select2 s2cErrChan c2sErrChan first =
     (case (chan_ready s2cErrChan, chan_ready c2sErrChan) of
        (None, None) \<Rightarrow> None
      | (Some a, None) \<Rightarrow> Some (S2C a)
      | (None, Some b) \<Rightarrow> Some (C2S b)
      | (Some a, Some b) \<Rightarrow> Some (if first then S2C a else C2S b))"

datatype call_result = Returns error | Panics | BlockedInSelect

record call =
  result :: call_result
  client_streams :: "client_stream list"
  cancel_called :: bool
  s2c_pipeline :: "s2c option"
  c2s_pipeline :: "c2s option"

text \<open>
  The handler, for one call. The two pipelines share nothing but the handler's
  \<open>select\<close> (the broadcast goroutine only sends on the backend streams, the followers
  only receive from them), so a run of the call is given by how far each pipeline has
  come when the \<open>select\<close> fires: \<open>n\<close>, the number of downstream \<open>RecvMsg\<close> results the
  broadcast goroutine has consumed, \<open>sched\<close>, the schedule of the fan-in goroutines, and
  \<open>first\<close>, the choice of the \<open>select\<close>. \<open>context.WithCancel\<close> panics on a \<open>nil\<close>
  parent context.
\<close>

definition handler ::
  "(call_context \<Rightarrow> string \<Rightarrow> client_conn route) \<Rightarrow> server_stream \<Rightarrow> nat \<Rightarrow> goroutine list \<Rightarrow> bool \<Rightarrow> call" where
  "handler director serverStream n sched first =
     (let stop = (\<lambda>r ss. \<lparr>result = r, client_streams = ss, cancel_called = False,
                          s2c_pipeline = None, c2s_pipeline = None\<rparr>) in
      case method_name serverStream of
        None \<Rightarrow> stop (Returns (Some (Errorf Internal ''lowLevelServerStream not exists in context'' []))) []
      | Some fullMethodName \<Rightarrow>
          (let r = director (stream_ctx serverStream) fullMethodName in
           if route_err r \<noteq> None then stop (Returns (route_err r)) []
           else case out_ctx r of
             None \<Rightarrow> stop Panics []
           | Some outgoingCtx \<Rightarrow>
               (case new_client_streams fullMethodName (backend_conns r) of
                  (ss, Some e) \<Rightarrow> stop (Returns (Some e)) ss
                | (clientStreams, None) \<Rightarrow>
                    (let s2c = forwardServerToClients (take n (down_recv_script serverStream)) clientStreams;
                         c2s = forwardClientsToServerUnary serverStream clientStreams sched;
                         run = (\<lambda>r c. \<lparr>result = r, client_streams = clientStreams, cancel_called = c,
                                      s2c_pipeline = Some s2c, c2s_pipeline = Some c2s\<rparr>)
                     in case select2 (s2c_ret s2c) (c2s_ret c2s) first of
                          None \<Rightarrow> run BlockedInSelect False
                        | Some (S2C s2cErr) \<Rightarrow>
                            run (Returns (Some (Errorf Internal ''failed proxying s2c: %v'' [s2cErr]))) True
                        | Some (C2S c2sErr) \<Rightarrow>
                            run (Returns (if c2sErr \<noteq> Some EOF then c2sErr else None)) False))))"

section \<open>The sample Director\<close>

text \<open>
  \<open>Director\<close> of the sample deployment, with \<open>grpc.DialContext\<close> as a parameter: the
  connection and the error it returns for an endpoint. Beside the route, the model
  returns the endpoints dialled, in order. A \<open>nil\<close> slice is the empty list.
\<close>

definition Director :: "(string \<Rightarrow> 'c \<times> error) \<Rightarrow> call_context \<Rightarrow> string \<Rightarrow> 'c route \<times> string list" where
  "Director dial ctx fullMethodName =
     (case incoming_md ctx of
        Some md \<Rightarrow>
          (let outCtx = ctx\<lparr>outgoing_md := Some md\<rparr>;
               (conn1, err1) = dial '':8051'';
               (conn2, err2) = dial '':8052'';
               err = (if err1 \<noteq> None then err1 else err2)
           in (\<lparr>out_ctx = Some outCtx, backend_conns = [conn1, conn2], route_err = err\<rparr>,
               ['':8051'', '':8052'']))
      | None \<Rightarrow>
          (\<lparr>out_ctx = None, backend_conns = [],
            route_err = Some (Errorf Unimplemented ''Unknown method'' [])\<rparr>, []))"

section \<open>The synchronized stream wrapper\<close>

datatype wrapper_op = SetHeader | SendHeader | SetTrailer | Context | SendMsg | RecvMsg

datatype mutex = SendMu | RecvMu


text \<open>
  A goroutine calling the wrapper's methods one after another. Within a call it is at
  \<open>Lock()\<close>, or holds the mutex and is about to call the wrapped stream, or is inside
  the wrapped stream's method, or has left it and is about to run the deferred
  \<open>Unlock()\<close>.
\<close>

datatype call_phase = AtLock | AtCall | InCall | AtUnlock

record caller =
  calls :: "wrapper_op list"
  phase :: call_phase

record wrapper =
  sendMu :: bool
  recvMu :: bool
  callers :: "caller list"

definition is_locked :: "mutex \<Rightarrow> wrapper \<Rightarrow> bool" where
  "is_locked m w = (case m of SendMu \<Rightarrow> sendMu w | RecvMu \<Rightarrow> recvMu w)"

definition set_locked :: "mutex \<Rightarrow> bool \<Rightarrow> wrapper \<Rightarrow> wrapper" where
  "set_locked m b w = (case m of SendMu \<Rightarrow> w\<lparr>sendMu := b\<rparr> | RecvMu \<Rightarrow> w\<lparr>recvMu := b\<rparr>)"






section \<open>Invariants and auxiliary functions\<close>

text \<open>
  The first error in a script of \<open>RecvMsg\<close> results, if any.
\<close>

fun first_error :: "recv_result list \<Rightarrow> err option" where
  "first_error [] = None"
| "first_error (RecvError e # rest) = Some e"
| "first_error (Received f # rest) = first_error rest"

text \<open>
  Every \<open>SendMsg\<close> on the stream returns \<open>nil\<close>.
\<close>

definition sends_succeed :: "client_stream \<Rightarrow> bool" where
  "sends_succeed d = list_all (\<lambda>r. r = None) (send_script d)"

text \<open>
  The backend's stream ends: some \<open>RecvMsg\<close> returns an error (\<open>io.EOF\<close> included).
\<close>

definition stream_ends :: "client_stream \<Rightarrow> bool" where
  "stream_ends s = (first_error (recv_script s) \<noteq> None)"

text \<open>
  The payloads a follower will still put on the channel if it runs on unhindered.
\<close>

definition pending_payloads :: "follower \<Rightarrow> bytes list" where
  "pending_payloads fo =
     (case fpc fo of
        Exited \<Rightarrow> []
      | AtPayloadSend j p \<Rightarrow> p # received_payloads (recv_script (src fo))
      | AtRecvMsg j \<Rightarrow>
          if j = 0 then queued_payloads (src fo) else received_payloads (recv_script (src fo)))"

text \<open>
  Invariant of the fan-in pipeline for the merge: until the coordinator has merged,
  the payloads in the channel and the payloads still to come are together those of the
  backends' scripts; afterwards the single frame sent is a concatenation of them.
\<close>

definition merge_inv :: "nat \<Rightarrow> bytes multiset \<Rightarrow> c2s \<Rightarrow> bool" where
  "merge_inv n tot st =
     (length (followers st) = n \<and> cap (payloadCh st) = n \<and>
      (case coordinator st of
         AtWait \<Rightarrow>
           sent_frames (events st) = [] \<and> length (buf (payloadCh st)) \<le> n \<and>
           mset (buf (payloadCh st)) + mset (concat (map pending_payloads (followers st))) = tot
       | _ \<Rightarrow>
           (\<exists>ps. mset ps = tot \<and> length ps \<le> n \<and>
                 sent_frames (events st) = [\<lparr>payload = concat ps\<rparr>])))"

text \<open>
  The goroutine an event belongs to, and the events of one follower.
\<close>

fun log_index :: "log_entry \<Rightarrow> nat" where
  "log_index (LogSendError i e) = i"
| "log_index (LogRecvError i e) = i"
| "log_index (LogHeaderError i e) = i"
| "log_index (LogSetHeaderError i e) = i"

fun follower_of :: "event \<Rightarrow> nat option" where
  "follower_of (EvRecv i r) = Some i"
| "follower_of (EvSetHeader i md) = Some i"
| "follower_of (EvSetTrailer i md) = Some i"
| "follower_of (EvQueue i p) = Some i"
| "follower_of (EvLog l) = Some (log_index l)"
| "follower_of (EvSendMsg m) = None"

definition follower_events :: "nat \<Rightarrow> event list \<Rightarrow> event list" where
  "follower_events i evs = filter (\<lambda>e. follower_of e = Some i) evs"

text \<open>
  The events a follower emits from iteration \<open>j\<close> on if nothing blocks it: the
  sequential reading of its loop.
\<close>

fun follower_rest :: "server_stream \<Rightarrow> nat \<Rightarrow> err + metadata \<Rightarrow> metadata \<Rightarrow> nat \<Rightarrow> recv_result list \<Rightarrow> event list" where
  "follower_rest dst i hdr trl j [] = []"
| "follower_rest dst i hdr trl j (RecvError e # rest) =
     (if e = EOF then [EvRecv i (RecvError e), EvSetTrailer i trl]
      else [EvRecv i (RecvError e), EvLog (LogRecvError i e)])"
| "follower_rest dst i hdr trl j (Received f # rest) =
     (if j = 0
      then (case hdr of
              Inl e \<Rightarrow> [EvRecv i (Received f), EvLog (LogHeaderError i e)]
            | Inr md \<Rightarrow>
                [EvRecv i (Received f), EvSetHeader i md] @
                (case set_header_result dst md of None \<Rightarrow> [] | Some e \<Rightarrow> [EvLog (LogSetHeaderError i e)]) @
                EvQueue i (payload f) # follower_rest dst i hdr trl (Suc j) rest)
      else EvRecv i (Received f) # EvQueue i (payload f) # follower_rest dst i hdr trl (Suc j) rest)"

text \<open>
  The events a follower will still emit from where it stands.
\<close>

definition remaining_events :: "server_stream \<Rightarrow> nat \<Rightarrow> follower \<Rightarrow> event list" where
  "remaining_events dst i fo =
     (case fpc fo of
        Exited \<Rightarrow> []
      | AtRecvMsg j \<Rightarrow> follower_rest dst i (header_result (src fo)) (trailer_md (src fo)) j (recv_script (src fo))
      | AtPayloadSend j p \<Rightarrow>
          EvQueue i p # follower_rest dst i (header_result (src fo)) (trailer_md (src fo)) (Suc j) (recv_script (src fo)))"

text \<open>
  Invariant of one follower: what it has done and what it will still do are together its
  sequential behaviour; its first step emits two events; it has returned once a receive
  error or a header error is in its trace.
\<close>

definition follower_ok :: "server_stream \<Rightarrow> nat \<Rightarrow> client_stream \<Rightarrow> event list \<Rightarrow> follower \<Rightarrow> bool" where
  "follower_ok dst i s tr fo =
     (tr @ remaining_events dst i fo = follower_rest dst i (header_result s) (trailer_md s) 0 (recv_script s) \<and>
      (tr = [] \<and> fpc fo = AtRecvMsg 0 \<or> 2 \<le> length tr) \<and>
      (fpc fo = Exited \<or> (\<forall>e. EvRecv i (RecvError e) \<notin> set tr)) \<and>
      (fpc fo = Exited \<or> (\<forall>e. EvLog (LogHeaderError i e) \<notin> set tr)))"

definition trace_inv :: "server_stream \<Rightarrow> client_stream list \<Rightarrow> c2s \<Rightarrow> bool" where
  "trace_inv dst sources st =
     (length (followers st) = length sources \<and>
      (\<forall>i < length sources.
         follower_ok dst i (sources ! i) (follower_events i (events st)) (followers st ! i)))"

text \<open>
  Invariant of the fan-in pipeline's \<open>ret\<close> channel.
\<close>

definition ret_inv :: "server_stream \<Rightarrow> c2s \<Rightarrow> bool" where
  "ret_inv dst st =
     (\<not> closed (c2s_ret st) \<and> cap (c2s_ret st) = 1 \<and>
      (case coordinator st of
         AtWait \<Rightarrow> buf (c2s_ret st) = [] \<and> sent_frames (events st) = []
       | AtRetSend r \<Rightarrow>
           buf (c2s_ret st) = [] \<and> (\<exists>m. sent_frames (events st) = [m] \<and> r = send_msg_result dst m)
       | CoordinatorExited \<Rightarrow>
           (\<exists>m. sent_frames (events st) = [m] \<and> buf (c2s_ret st) = [send_msg_result dst m])))"

text \<open>
  The number of steps a follower still takes when nothing blocks it, and the number of
  steps the whole pipeline still takes.
\<close>

definition follower_steps_left :: "follower \<Rightarrow> nat" where
  "follower_steps_left fo =
     (case fpc fo of
        Exited \<Rightarrow> 0
      | AtRecvMsg j \<Rightarrow> 2 * length (received_payloads (recv_script (src fo))) + 1
      | AtPayloadSend j p \<Rightarrow> 2 * length (received_payloads (recv_script (src fo))) + 2)"

definition steps_left :: "c2s \<Rightarrow> nat" where
  "steps_left st =
     sum_list (map follower_steps_left (followers st)) +
     (case coordinator st of AtWait \<Rightarrow> 2 | AtRetSend r \<Rightarrow> 1 | CoordinatorExited \<Rightarrow> 0)"

text \<open>
  Invariant for completion: nothing has panicked, every follower still running has a
  stream that ends, and while the coordinator waits the channel is open and has room for
  every payload still to come.
\<close>

definition live_inv :: "c2s \<Rightarrow> bool" where
  "live_inv st =
     (\<not> panicked st \<and>
      list_all (\<lambda>fo. fpc fo = Exited \<or> stream_ends (src fo)) (followers st) \<and>
      (case coordinator st of
         AtWait \<Rightarrow>
           \<not> closed (payloadCh st) \<and>
           length (buf (payloadCh st)) + length (concat (map pending_payloads (followers st)))
             \<le> cap (payloadCh st) \<and>
           c2s_ret st = make_chan 1
       | AtRetSend r \<Rightarrow> list_all (\<lambda>fo. fpc fo = Exited) (followers st) \<and> c2s_ret st = make_chan 1
       | CoordinatorExited \<Rightarrow> list_all (\<lambda>fo. fpc fo = Exited) (followers st)))"


text \<open>
  The destinations a frame is written to in one round of the broadcast loop: all those
  before the first destination whose next write fails, and that destination itself.
  \<open>reached\<close> counts the destinations before it.
\<close>

definition next_write_fails :: "client_stream \<Rightarrow> bool" where
  "next_write_fails d = (case send_script d of [] \<Rightarrow> False | r # rs \<Rightarrow> r \<noteq> None)"

definition reached :: "client_stream list \<Rightarrow> nat" where
  "reached ds = length (takeWhile (\<lambda>d. \<not> next_write_fails d) ds)"

definition broadcast_round :: "frame \<Rightarrow> client_stream list \<Rightarrow> client_stream list" where
  "broadcast_round f ds =
     map (\<lambda>d. fst (send_msg f d)) (take (Suc (reached ds)) ds) @ drop (Suc (reached ds)) ds"

text \<open>
  The frames of the \<open>SendMsg\<close> calls in a log of calls.
\<close>

fun op_frames :: "stream_op list \<Rightarrow> frame list" where
  "op_frames [] = []"
| "op_frames (OpSendMsg f r # ops) = f # op_frames ops"
| "op_frames (OpCloseSend # ops) = op_frames ops"

text \<open>
  Invariant for a single follower's progress: nothing has panicked, the error channel is
  open, and while the coordinator waits the delivery channel is open and has room for
  every payload still to come; the follower at hand has returned or has a stream that
  ends.
\<close>

definition room_inv :: "c2s \<Rightarrow> bool" where
  "room_inv st =
     (\<not> panicked st \<and> \<not> closed (c2s_ret st) \<and>
      (case coordinator st of
         AtWait \<Rightarrow>
           \<not> closed (payloadCh st) \<and>
           length (buf (payloadCh st)) + length (concat (map pending_payloads (followers st)))
             \<le> cap (payloadCh st)
       | _ \<Rightarrow> list_all (\<lambda>fo. fpc fo = Exited) (followers st)))"

definition solo_inv :: "nat \<Rightarrow> c2s \<Rightarrow> bool" where
  "solo_inv i st =
     (room_inv st \<and> i < length (followers st) \<and>
      (fpc (followers st ! i) = Exited \<or> stream_ends (src (followers st ! i))))"

text \<open>
  Invariant of every run of the fan-in pipeline: nothing has panicked, the error channel
  is open, and the delivery channel is open for as long as the coordinator waits; once
  it has stopped waiting every follower has returned.
\<close>

definition open_inv :: "c2s \<Rightarrow> bool" where
  "open_inv st =
     (\<not> panicked st \<and> \<not> closed (c2s_ret st) \<and>
      (case coordinator st of
         AtWait \<Rightarrow> \<not> closed (payloadCh st)
       | _ \<Rightarrow> list_all (\<lambda>fo. fpc fo = Exited) (followers st)))"

text \<open>
  What a follower does with the first result of \<open>RecvMsg\<close>: on a frame, \<open>Header()\<close>
  and then \<open>SetHeader\<close> or the log entry; on an error, \<open>SetTrailer\<close> or the log entry.
\<close>

definition first_events :: "server_stream \<Rightarrow> nat \<Rightarrow> client_stream \<Rightarrow> recv_result \<Rightarrow> event list" where
  "first_events dst i s r =
     (case r of
        RecvError e \<Rightarrow>
          [EvRecv i (RecvError e),
           if e = EOF then EvSetTrailer i (trailer_md s) else EvLog (LogRecvError i e)]
      | Received f \<Rightarrow>
          (case header_result s of
             Inl he \<Rightarrow> [EvRecv i (Received f), EvLog (LogHeaderError i he)]
           | Inr md \<Rightarrow> [EvRecv i (Received f), EvSetHeader i md]))"

section \<open>Example calls\<close>

text \<open>
  A backend that answers with one frame and then ends its stream; one whose \<open>Header()\<close>
  fails; one on which the first \<open>SendMsg\<close> fails.
\<close>

definition backend_replying :: "bytes \<Rightarrow> client_stream" where
  "backend_replying p =
     \<lparr>recv_script = [Received \<lparr>payload = p\<rparr>, RecvError EOF],
      header_result = Inr [(''content-type'', [''application/grpc''])],
      trailer_md = [], send_script = [], sendlog = []\<rparr>"

definition backend_without_header :: client_stream where
  "backend_without_header =
     \<lparr>recv_script = [Received \<lparr>payload = [65]\<rparr>, RecvError EOF],
      header_result = Inl (Failure ''header unavailable''),
      trailer_md = [], send_script = [], sendlog = []\<rparr>"

definition backend_refusing_writes :: client_stream where
  "backend_refusing_writes =
     \<lparr>recv_script = [Received \<lparr>payload = [65]\<rparr>, RecvError EOF],
      header_result = Inr [(''content-type'', [''application/grpc''])],
      trailer_md = [], send_script = [Some (Failure ''write failed'')], sendlog = []\<rparr>"

text \<open>
  The downstream stream of a call of \<open>/machine.Machine/Version\<close>: the caller sends one
  empty request and half-closes; setting headers and sending the reply succeed.
\<close>

definition version_call :: server_stream where
  "version_call =
     \<lparr>method_name = Some ''/machine.Machine/Version'',
      stream_ctx = \<lparr>incoming_md = Some [], outgoing_md = None\<rparr>,
      down_recv_script = [Received \<lparr>payload = []\<rparr>, RecvError EOF],
      set_header_result = (\<lambda>md. None),
      send_msg_result = (\<lambda>m. None)\<rparr>"

text \<open>A director that routes every call to connections opening the given streams.\<close>

definition route_to :: "client_stream list \<Rightarrow> call_context \<Rightarrow> string \<Rightarrow> client_conn route" where
  "route_to ss ctx fullMethodName =
     \<lparr>out_ctx = Some ctx,
      backend_conns = map (\<lambda>s. \<lparr>new_client_stream = (\<lambda>m. Inr s)\<rparr>) ss,
      route_err = None\<rparr>"

text \<open>A schedule that lets two followers and then the coordinator run to the end.\<close>

definition both_then_merge :: "goroutine list" where
  "both_then_merge =
     [Follower 0, Follower 1, Follower 1, Follower 0, Follower 0, Follower 1, Coordinator, Coordinator]"

text \<open>A director whose second connection cannot open a stream.\<close>

definition route_with_unreachable :: "call_context \<Rightarrow> string \<Rightarrow> client_conn route" where
  "route_with_unreachable ctx fullMethodName =
     \<lparr>out_ctx = Some ctx,
      backend_conns = [\<lparr>new_client_stream = (\<lambda>m. Inr (backend_replying [65]))\<rparr>,
                       \<lparr>new_client_stream = (\<lambda>m. Inl (Failure ''connection refused''))\<rparr>],
      route_err = None\<rparr>"

text \<open>Dial results: both endpoints up, and the first endpoint down.\<close>

definition dial_up :: "string \<Rightarrow> client_conn \<times> error" where
  "dial_up endpoint = (\<lparr>new_client_stream = (\<lambda>m. Inr (backend_replying [65]))\<rparr>, None)"

definition dial_first_down :: "string \<Rightarrow> nat \<times> error" where
  "dial_first_down endpoint =
     (if endpoint = '':8051'' then (0, Some (Failure ''connection refused'')) else (1, None))"

text \<open>A schedule that lets one follower and then the coordinator run to the end.\<close>

definition one_then_merge :: "goroutine list" where
  "one_then_merge = [Follower 0, Follower 0, Follower 0, Coordinator, Coordinator]"

section \<open>Proofs: the broadcast pipeline\<close>

lemma send_msg_succeeds:
  "sends_succeed d \<Longrightarrow>
     send_msg f d = (d\<lparr>send_script := tl (send_script d), sendlog := sendlog d @ [OpSendMsg f None]\<rparr>, None)"
  by (cases "send_script d") (auto simp: send_msg_def sends_succeed_def)

lemma send_to_all_succeeds:
  "list_all sends_succeed ds \<Longrightarrow>
     send_to_all i f ds =
       (map (\<lambda>d. d\<lparr>send_script := tl (send_script d), sendlog := sendlog d @ [OpSendMsg f None]\<rparr>) ds, [])"
  by (induction ds arbitrary: i) (simp_all add: send_msg_succeeds)

lemma sends_succeed_tl:
  "sends_succeed d \<Longrightarrow> sends_succeed (d\<lparr>send_script := tl (send_script d), sendlog := l\<rparr>)"
  by (cases "send_script d") (auto simp: sends_succeed_def)

lemma loop_delivers:
  assumes "list_all sends_succeed (destinations st)"
  shows "forwardServerToClients_loop (map Received fs @ RecvError EOF # rest) st =
           st\<lparr>destinations :=
                 map (\<lambda>d. d\<lparr>send_script := drop (length fs) (send_script d),
                             sendlog := sendlog d @ map (\<lambda>f. OpSendMsg f None) fs @ [OpCloseSend]\<rparr>)
                     (destinations st),
               s2c_returned := True\<rparr>"
  using assms
proof (induction fs arbitrary: st)
  case Nil
  then show ?case by (simp add: close_send_def)
next
  case (Cons f fs)
  let ?ds = "map (\<lambda>d. d\<lparr>send_script := tl (send_script d), sendlog := sendlog d @ [OpSendMsg f None]\<rparr>)
                 (destinations st)"
  have ok: "list_all sends_succeed ?ds"
    using Cons.prems by (simp add: list_all_iff sends_succeed_tl)
  have "forwardServerToClients_loop (map Received (f # fs) @ RecvError EOF # rest) st =
        forwardServerToClients_loop (map Received fs @ RecvError EOF # rest) (st\<lparr>destinations := ?ds\<rparr>)"
    using Cons.prems by (simp add: send_to_all_succeeds)
  also have "\<dots> = (st\<lparr>destinations := ?ds\<rparr>)\<lparr>destinations :=
                 map (\<lambda>d. d\<lparr>send_script := drop (length fs) (send_script d),
                             sendlog := sendlog d @ map (\<lambda>f. OpSendMsg f None) fs @ [OpCloseSend]\<rparr>)
                     (destinations (st\<lparr>destinations := ?ds\<rparr>)),
               s2c_returned := True\<rparr>"
    using ok by (intro Cons.IH) simp
  also have "\<dots> = st\<lparr>destinations :=
                 map (\<lambda>d. d\<lparr>send_script := drop (length (f # fs)) (send_script d),
                             sendlog := sendlog d @ map (\<lambda>f. OpSendMsg f None) (f # fs) @ [OpCloseSend]\<rparr>)
                     (destinations st),
               s2c_returned := True\<rparr>"
    by (simp add: drop_Suc o_def)
  finally show ?case .
qed

text \<open>
  When every write succeeds, the whole final state of the pipeline.
\<close>

lemma broadcast_all_writes_succeed:
  assumes "list_all sends_succeed ds"
  shows "forwardServerToClients (map Received fs @ RecvError EOF # rest) ds =
           \<lparr>destinations =
              map (\<lambda>d. d\<lparr>send_script := drop (length fs) (send_script d),
                          sendlog := sendlog d @ map (\<lambda>f. OpSendMsg f None) fs @ [OpCloseSend]\<rparr>) ds,
            s2c_ret = make_chan 1, s2c_log = [], s2c_returned = True\<rparr>"
  using assms by (simp add: forwardServerToClients_def s2c_init_def loop_delivers)

lemma loop_ret:
  "s2c_ret (forwardServerToClients_loop rs st) =
     (case first_error rs of
        None \<Rightarrow> s2c_ret st
      | Some e \<Rightarrow>
          if e = EOF then s2c_ret st
          else (case chan_send (Some e) (s2c_ret st) of Delivered c \<Rightarrow> c | _ \<Rightarrow> s2c_ret st))"
proof (induction rs arbitrary: st)
  case Nil
  then show ?case by simp
next
  case (Cons r rest)
  show ?case
  proof (cases r)
    case (RecvError e)
    then show ?thesis by (simp split: send_outcome.splits)
  next
    case (Received f)
    obtain ds l where "send_to_all 0 f (destinations st) = (ds, l)"
      by (cases "send_to_all 0 f (destinations st)")
    with Received show ?thesis by (simp add: Cons.IH split: option.splits send_outcome.splits)
  qed
qed

lemma loop_returned:
  "s2c_returned (forwardServerToClients_loop rs st) =
     (case first_error rs of
        None \<Rightarrow> s2c_returned st
      | Some e \<Rightarrow>
          if e = EOF then True
          else (case chan_send (Some e) (s2c_ret st) of Delivered c \<Rightarrow> True | _ \<Rightarrow> s2c_returned st))"
proof (induction rs arbitrary: st)
  case Nil
  then show ?case by simp
next
  case (Cons r rest)
  show ?case
  proof (cases r)
    case (RecvError e)
    then show ?thesis by (simp split: send_outcome.splits)
  next
    case (Received f)
    obtain ds l where "send_to_all 0 f (destinations st) = (ds, l)"
      by (cases "send_to_all 0 f (destinations st)")
    with Received show ?thesis by (simp add: Cons.IH split: option.splits send_outcome.splits)
  qed
qed

lemma broadcast_ret:
  "s2c_ret (forwardServerToClients rs ds) =
     \<lparr>buf = (case first_error rs of None \<Rightarrow> [] | Some e \<Rightarrow> if e = EOF then [] else [Some e]),
      cap = 1, closed = False\<rparr>"
  by (simp add: forwardServerToClients_def loop_ret s2c_init_def make_chan_def chan_send_def
      split: option.splits)

lemma broadcast_returned:
  "s2c_returned (forwardServerToClients rs ds) = (first_error rs \<noteq> None)"
  by (simp add: forwardServerToClients_def loop_returned s2c_init_def make_chan_def chan_send_def
      split: option.splits)

lemma send_msg_result: "snd (send_msg f d) = None \<longleftrightarrow> \<not> next_write_fails d"
  by (cases "send_script d") (auto simp: send_msg_def next_write_fails_def)

lemma send_to_all_round: "fst (send_to_all i f ds) = broadcast_round f ds"
proof (induction ds arbitrary: i)
  case Nil
  then show ?case by (simp add: broadcast_round_def)
next
  case (Cons d ds)
  obtain d' r where s: "send_msg f d = (d', r)" by (cases "send_msg f d")
  show ?case
  proof (cases r)
    case None
    with s send_msg_result[of f d] have ok: "\<not> next_write_fails d" by simp
    obtain ds' l where rec: "send_to_all (Suc i) f ds = (ds', l)" by (cases "send_to_all (Suc i) f ds")
    from Cons.IH[of "Suc i"] rec have "ds' = broadcast_round f ds" by simp
    with s None rec ok show ?thesis
      by (simp add: broadcast_round_def reached_def)
  next
    case (Some e)
    with s send_msg_result[of f d] have "next_write_fails d" by auto
    with s Some show ?thesis
      by (simp add: broadcast_round_def reached_def)
  qed
qed

lemma loop_destinations:
  "destinations (forwardServerToClients_loop (map Received fs @ RecvError EOF # rest) st) =
     map close_send (foldl (\<lambda>ds f. broadcast_round f ds) (destinations st) fs)"
proof (induction fs arbitrary: st)
  case Nil
  then show ?case by simp
next
  case (Cons f fs)
  obtain ds l where s: "send_to_all 0 f (destinations st) = (ds, l)"
    by (cases "send_to_all 0 f (destinations st)")
  with send_to_all_round[of 0 f "destinations st"] have "ds = broadcast_round f (destinations st)"
    by simp
  with s Cons.IH[of "st\<lparr>destinations := ds, s2c_log := s2c_log st @ l\<rparr>"] show ?case
    by simp
qed

lemma first_error_frames_then: "first_error (map Received fs @ RecvError e # rest) = Some e"
  by (induction fs) simp_all

lemma length_broadcast_round [simp]: "length (broadcast_round f ds) = length ds"
  by (simp add: broadcast_round_def)

lemma broadcast_round_nth:
  "k < length ds \<Longrightarrow>
     broadcast_round f ds ! k = (if k \<le> reached ds then fst (send_msg f (ds ! k)) else ds ! k)"
  by (auto simp: broadcast_round_def nth_append min_def)

lemma sendlog_send_msg:
  "sendlog (fst (send_msg f d)) = sendlog d @ [OpSendMsg f (snd (send_msg f d))]"
  by (cases "send_script d") (simp_all add: send_msg_def)

lemma sends_succeed_send_msg:
  "sends_succeed d \<Longrightarrow> sends_succeed (fst (send_msg f d)) \<and> snd (send_msg f d) = None"
  by (cases "send_script d") (auto simp: send_msg_def sends_succeed_def)

lemma sends_succeed_next: "sends_succeed d \<Longrightarrow> \<not> next_write_fails d"
  by (cases "send_script d") (auto simp: next_write_fails_def sends_succeed_def)

lemma reached_ge:
  "k < length ds \<Longrightarrow> \<forall>j \<le> k. \<not> next_write_fails (ds ! j) \<Longrightarrow> k < reached ds"
proof (induction ds arbitrary: k)
  case Nil
  then show ?case by simp
next
  case (Cons d ds)
  from Cons.prems(2) have d: "\<not> next_write_fails d" by force
  show ?case
  proof (cases k)
    case 0
    with d show ?thesis by (simp add: reached_def)
  next
    case (Suc k')
    with Cons.prems have "k' < length ds" and "\<forall>j \<le> k'. \<not> next_write_fails (ds ! j)"
      by auto
    from Cons.IH[OF this] d Suc show ?thesis by (simp add: reached_def)
  qed
qed

lemma fold_rounds_logs:
  "length (foldl (\<lambda>ds f. broadcast_round f ds) ds fs) = length ds \<and>
   (\<forall>k < length ds. \<exists>ops.
      sendlog (foldl (\<lambda>ds f. broadcast_round f ds) ds fs ! k) = sendlog (ds ! k) @ ops \<and>
      OpCloseSend \<notin> set ops \<and> subseq (op_frames ops) fs)"
proof (induction fs rule: rev_induct)
  case Nil
  then show ?case by simp
next
  case (snoc f fs)
  let ?ds' = "foldl (\<lambda>ds f. broadcast_round f ds) ds fs"
  from snoc have len: "length ?ds' = length ds" by blast
  have "\<exists>ops. sendlog (broadcast_round f ?ds' ! k) = sendlog (ds ! k) @ ops \<and>
      OpCloseSend \<notin> set ops \<and> subseq (op_frames ops) (fs @ [f])" if k: "k < length ds" for k
  proof -
    from snoc k obtain ops where ops: "sendlog (?ds' ! k) = sendlog (ds ! k) @ ops"
      "OpCloseSend \<notin> set ops" "subseq (op_frames ops) fs"
      by blast
    have opf: "op_frames (xs @ [OpSendMsg f r]) = op_frames xs @ [f]" for xs r
      by (induction xs rule: op_frames.induct) simp_all
    show ?thesis
    proof (cases "k \<le> reached ?ds'")
      case True
      with k len have "sendlog (broadcast_round f ?ds' ! k) =
          sendlog (ds ! k) @ (ops @ [OpSendMsg f (snd (send_msg f (?ds' ! k)))])"
        by (simp add: broadcast_round_nth sendlog_send_msg ops(1))
      moreover have "subseq (op_frames (ops @ [OpSendMsg f (snd (send_msg f (?ds' ! k)))])) (fs @ [f])"
        using ops(3) by (simp add: opf list_emb_append_mono)
      moreover have "OpCloseSend \<notin> set (ops @ [OpSendMsg f (snd (send_msg f (?ds' ! k)))])"
        using ops(2) by simp
      ultimately show ?thesis by blast
    next
      case False
      with k len have "sendlog (broadcast_round f ?ds' ! k) = sendlog (ds ! k) @ ops"
        by (simp add: broadcast_round_nth ops(1))
      moreover have "subseq (op_frames ops) (fs @ [f])"
        using ops(3) by (rule list_emb_prefix)
      ultimately show ?thesis using ops(2) by blast
    qed
  qed
  with len show ?case by simp
qed

lemma fold_rounds_healthy:
  assumes "k < length ds" and "\<forall>j \<le> k. sends_succeed (ds ! j)"
  shows "\<forall>j \<le> k. sends_succeed (foldl (\<lambda>ds f. broadcast_round f ds) ds fs ! j) \<and>
           sendlog (foldl (\<lambda>ds f. broadcast_round f ds) ds fs ! j) =
             sendlog (ds ! j) @ map (\<lambda>f. OpSendMsg f None) fs"
proof (induction fs rule: rev_induct)
  case Nil
  from assms(2) show ?case by simp
next
  case (snoc f fs)
  let ?ds' = "foldl (\<lambda>ds f. broadcast_round f ds) ds fs"
  have len: "length ?ds' = length ds" using fold_rounds_logs[of ds fs] by blast
  have "sends_succeed (broadcast_round f ?ds' ! j) \<and>
        sendlog (broadcast_round f ?ds' ! j) = sendlog (ds ! j) @ map (\<lambda>f. OpSendMsg f None) (fs @ [f])"
    if j: "j \<le> k" for j
  proof -
    from j assms(1) len have jl: "j < length ?ds'" by simp
    have "\<not> next_write_fails (?ds' ! i)" if "i \<le> j" for i
    proof -
      from that j have "i \<le> k" by simp
      with snoc have "sends_succeed (?ds' ! i)" by blast
      then show ?thesis by (rule sends_succeed_next)
    qed
    then have "\<forall>i \<le> j. \<not> next_write_fails (?ds' ! i)" by blast
    from reached_ge[OF jl this] have "j \<le> reached ?ds'" by simp
    with jl have nth: "broadcast_round f ?ds' ! j = fst (send_msg f (?ds' ! j))"
      by (simp add: broadcast_round_nth)
    from snoc j have ok: "sends_succeed (?ds' ! j)"
      and lg: "sendlog (?ds' ! j) = sendlog (ds ! j) @ map (\<lambda>f. OpSendMsg f None) fs"
      by simp_all
    from sends_succeed_send_msg[OF ok, of f] show ?thesis
      by (simp add: nth sendlog_send_msg lg)
  qed
  then show ?case by simp
qed

lemma loop_destinations_prefix:
  "destinations (forwardServerToClients_loop (map Received fs) st) =
     foldl (\<lambda>ds f. broadcast_round f ds) (destinations st) fs"
proof (induction fs arbitrary: st)
  case Nil
  then show ?case by simp
next
  case (Cons f fs)
  obtain ds l where s: "send_to_all 0 f (destinations st) = (ds, l)"
    by (cases "send_to_all 0 f (destinations st)")
  with send_to_all_round[of 0 f "destinations st"] have "ds = broadcast_round f (destinations st)"
    by simp
  with s Cons.IH[of "st\<lparr>destinations := ds, s2c_log := s2c_log st @ l\<rparr>"] show ?case
    by simp
qed

lemma reached_iff:
  "k < length ds \<Longrightarrow> k \<le> reached ds \<longleftrightarrow> (\<forall>j < k. \<not> next_write_fails (ds ! j))"
proof (induction ds arbitrary: k)
  case Nil
  then show ?case by simp
next
  case (Cons d ds)
  show ?case
  proof (cases k)
    case 0
    then show ?thesis by simp
  next
    case (Suc k')
    with Cons.prems have k': "k' < length ds" by simp
    show ?thesis
    proof (cases "next_write_fails d")
      case True
      with Suc show ?thesis by (auto simp: reached_def)
    next
      case False
      have "(\<forall>j < Suc k'. \<not> next_write_fails ((d # ds) ! j)) \<longleftrightarrow> (\<forall>j < k'. \<not> next_write_fails (ds ! j))"
        using False by (auto simp: less_Suc_eq_0_disj)
      with Cons.IH[OF k'] False Suc show ?thesis by (simp add: reached_def)
    qed
  qed
qed

lemma broadcast_next_frame:
  assumes "m < length fs" and "k < length ds"
  shows "destinations (forwardServerToClients (map Received (take (Suc m) fs)) ds) ! k =
           (if \<forall>j < k. snd (send_msg (fs ! m)
                  (destinations (forwardServerToClients (map Received (take m fs)) ds) ! j)) = None
            then fst (send_msg (fs ! m) (destinations (forwardServerToClients (map Received (take m fs)) ds) ! k))
            else destinations (forwardServerToClients (map Received (take m fs)) ds) ! k)"
proof -
  let ?D = "foldl (\<lambda>ds f. broadcast_round f ds) ds (take m fs)"
  have D: "destinations (forwardServerToClients (map Received (take m fs)) ds) = ?D"
    by (simp add: forwardServerToClients_def loop_destinations_prefix s2c_init_def)
  have t: "take (Suc m) fs = take m fs @ [fs ! m]"
    using assms(1) by (rule take_Suc_conv_app_nth)
  have D': "destinations (forwardServerToClients (map Received (take (Suc m) fs)) ds) =
                   broadcast_round (fs ! m) ?D"
    unfolding forwardServerToClients_def loop_destinations_prefix t
    by (simp add: s2c_init_def)
  have len: "length ?D = length ds" using fold_rounds_logs[of ds "take m fs"] by blast
  with assms(2) have k: "k < length ?D" by simp
  show ?thesis
    unfolding D D' broadcast_round_nth[OF k] reached_iff[OF k]
    by (simp add: send_msg_result)
qed

text \<open>
  \<^bold>\<open>C2\<close>, in the form that holds of the code.
  For every call, whatever the writes to the backends return: on \<open>io.EOF\<close> from
  downstream, after the caller's frames, the broadcast pipeline has called \<open>CloseSend\<close>
  on every backend stream, as the last call on it, and has returned with nothing on its
  error channel. Each frame was written, unchanged, to every backend stream up to and
  including the first one whose write of that frame failed, and to all of them when none
  failed. So every backend stream was sent a subsequence of the caller's frames, in the
  caller's order, and a backend for which no write to it or to a backend before it fails
  was sent every frame. Frame by frame: the frame at position \<open>m\<close> is written to backend
  \<open>k\<close> exactly when its writes to all backends before \<open>k\<close> succeeded, whatever happened
  to the frames before it, and otherwise backend \<open>k\<close> is left as it was.
\<close>

theorem broadcast_delivers_in_order:
  "s2c_returned (forwardServerToClients (map Received fs @ RecvError EOF # rest) ds) \<and>
   s2c_ret (forwardServerToClients (map Received fs @ RecvError EOF # rest) ds) = make_chan 1 \<and>
   destinations (forwardServerToClients (map Received fs @ RecvError EOF # rest) ds) =
     map close_send (foldl (\<lambda>ds f. broadcast_round f ds) ds fs) \<and>
   length (destinations (forwardServerToClients (map Received fs @ RecvError EOF # rest) ds)) = length ds \<and>
   (\<forall>k < length ds. \<exists>ops.
      sendlog (destinations (forwardServerToClients (map Received fs @ RecvError EOF # rest) ds) ! k) =
        sendlog (ds ! k) @ ops @ [OpCloseSend] \<and>
      OpCloseSend \<notin> set ops \<and> subseq (op_frames ops) fs) \<and>
   (\<forall>k < length ds. (\<forall>j \<le> k. sends_succeed (ds ! j)) \<longrightarrow>
      sendlog (destinations (forwardServerToClients (map Received fs @ RecvError EOF # rest) ds) ! k) =
        sendlog (ds ! k) @ map (\<lambda>f. OpSendMsg f None) fs @ [OpCloseSend]) \<and>
   (\<forall>m < length fs. \<forall>k < length ds.
      destinations (forwardServerToClients (map Received (take (Suc m) fs)) ds) ! k =
        (if \<forall>j < k. snd (send_msg (fs ! m)
               (destinations (forwardServerToClients (map Received (take m fs)) ds) ! j)) = None
         then fst (send_msg (fs ! m) (destinations (forwardServerToClients (map Received (take m fs)) ds) ! k))
         else destinations (forwardServerToClients (map Received (take m fs)) ds) ! k))"
proof -
  let ?b = "forwardServerToClients (map Received fs @ RecvError EOF # rest) ds"
  let ?ds' = "foldl (\<lambda>ds f. broadcast_round f ds) ds fs"
  have d: "destinations ?b = map close_send ?ds'"
    by (simp add: forwardServerToClients_def loop_destinations s2c_init_def)
  have r: "s2c_returned ?b" "s2c_ret ?b = make_chan 1"
    by (simp_all add: broadcast_returned broadcast_ret first_error_frames_then make_chan_def)
  from fold_rounds_logs[of ds fs] have len: "length ?ds' = length ds"
    and logs: "\<forall>k < length ds. \<exists>ops. sendlog (?ds' ! k) = sendlog (ds ! k) @ ops \<and>
      OpCloseSend \<notin> set ops \<and> subseq (op_frames ops) fs"
    by blast+
  have cl: "sendlog (map close_send ?ds' ! k) = sendlog (?ds' ! k) @ [OpCloseSend]" if "k < length ds" for k
    using that len by (simp add: close_send_def)
  have 5: "\<forall>k < length ds. \<exists>ops. sendlog (destinations ?b ! k) = sendlog (ds ! k) @ ops @ [OpCloseSend] \<and>
      OpCloseSend \<notin> set ops \<and> subseq (op_frames ops) fs"
    using logs cl d by auto
  have 6: "\<forall>k < length ds. (\<forall>j \<le> k. sends_succeed (ds ! j)) \<longrightarrow>
      sendlog (destinations ?b ! k) = sendlog (ds ! k) @ map (\<lambda>f. OpSendMsg f None) fs @ [OpCloseSend]"
    using fold_rounds_healthy[of _ ds fs] cl d by auto
  have 7: "\<forall>m < length fs. \<forall>k < length ds.
      destinations (forwardServerToClients (map Received (take (Suc m) fs)) ds) ! k =
        (if \<forall>j < k. snd (send_msg (fs ! m)
               (destinations (forwardServerToClients (map Received (take m fs)) ds) ! j)) = None
         then fst (send_msg (fs ! m) (destinations (forwardServerToClients (map Received (take m fs)) ds) ! k))
         else destinations (forwardServerToClients (map Received (take m fs)) ds) ! k)"
    using broadcast_next_frame[of _ fs _ ds] by blast
  from d r len 5 6 show ?thesis by (simp add: 7)
qed

text \<open>
  Two frames and a half-close, broadcast to three backends, the second of which refuses
  the first write: the first backend is sent both frames, the second the frame it refuses
  and the next one, the third only the second frame, and all three the half-close. The
  second frame reaches the third backend because its writes to the two before succeed.
\<close>

theorem broadcast_delivers_in_order_witness:
  "map sendlog (destinations (forwardServerToClients
       [Received \<lparr>payload = [1]\<rparr>, Received \<lparr>payload = [2]\<rparr>, RecvError EOF]
       [backend_replying [65], backend_refusing_writes, backend_replying [66]])) =
     [[OpSendMsg \<lparr>payload = [1]\<rparr> None, OpSendMsg \<lparr>payload = [2]\<rparr> None, OpCloseSend],
      [OpSendMsg \<lparr>payload = [1]\<rparr> (Some (Failure ''write failed'')), OpSendMsg \<lparr>payload = [2]\<rparr> None,
       OpCloseSend],
      [OpSendMsg \<lparr>payload = [2]\<rparr> None, OpCloseSend]] \<and>
   (0::nat) < length [backend_replying [65], backend_refusing_writes, backend_replying [66]] \<and>
   sends_succeed ([backend_replying [65], backend_refusing_writes, backend_replying [66]] ! 0) \<and>
   sendlog (destinations (forwardServerToClients
       [Received \<lparr>payload = [1]\<rparr>, Received \<lparr>payload = [2]\<rparr>, RecvError EOF]
       [backend_replying [65], backend_refusing_writes, backend_replying [66]]) ! 0) =
     [OpSendMsg \<lparr>payload = [1]\<rparr> None, OpSendMsg \<lparr>payload = [2]\<rparr> None, OpCloseSend] \<and>
   snd (send_msg \<lparr>payload = [2]\<rparr> (destinations (forwardServerToClients
       [Received \<lparr>payload = [1]\<rparr>]
       [backend_replying [65], backend_refusing_writes, backend_replying [66]]) ! 0)) = None \<and>
   snd (send_msg \<lparr>payload = [2]\<rparr> (destinations (forwardServerToClients
       [Received \<lparr>payload = [1]\<rparr>]
       [backend_replying [65], backend_refusing_writes, backend_replying [66]]) ! 1)) = None \<and>
   destinations (forwardServerToClients
       [Received \<lparr>payload = [1]\<rparr>, Received \<lparr>payload = [2]\<rparr>]
       [backend_replying [65], backend_refusing_writes, backend_replying [66]]) ! 2 =
     fst (send_msg \<lparr>payload = [2]\<rparr> (destinations (forwardServerToClients
       [Received \<lparr>payload = [1]\<rparr>]
       [backend_replying [65], backend_refusing_writes, backend_replying [66]]) ! 2))"
proof -
  let ?ds = "[backend_replying [65], backend_refusing_writes, backend_replying [66]]"
  let ?fs = "[\<lparr>payload = [1]\<rparr>, \<lparr>payload = [2 :: 8 word]\<rparr>]"
  have w0: "snd (send_msg \<lparr>payload = [2]\<rparr> (destinations (forwardServerToClients
       [Received \<lparr>payload = [1]\<rparr>] ?ds) ! 0)) = None"
    by code_simp
  have w1: "snd (send_msg \<lparr>payload = [2]\<rparr> (destinations (forwardServerToClients
       [Received \<lparr>payload = [1]\<rparr>] ?ds) ! 1)) = None"
    by code_simp
  have w: "\<forall>j < 2. snd (send_msg (?fs ! 1) (destinations (forwardServerToClients
       (map Received (take 1 ?fs)) ?ds) ! j)) = None"
  proof (intro allI impI)
    fix j :: nat
    assume "j < 2"
    then have "j = 0 \<or> j = 1" by arith
    with w0 w1 show "snd (send_msg (?fs ! 1) (destinations (forwardServerToClients
       (map Received (take 1 ?fs)) ?ds) ! j)) = None"
      by auto
  qed
  have "(1::nat) < length ?fs" "(2::nat) < length ?ds" by simp_all
  with broadcast_delivers_in_order[of ?fs "[]" ?ds]
  have step: "destinations (forwardServerToClients (map Received (take (Suc 1) ?fs)) ?ds) ! 2 =
        (if \<forall>j < 2. snd (send_msg (?fs ! 1)
               (destinations (forwardServerToClients (map Received (take 1 ?fs)) ?ds) ! j)) = None
         then fst (send_msg (?fs ! 1) (destinations (forwardServerToClients (map Received (take 1 ?fs)) ?ds) ! 2))
         else destinations (forwardServerToClients (map Received (take 1 ?fs)) ?ds) ! 2)"
    by blast
  have "destinations (forwardServerToClients (map Received (take (Suc 1) ?fs)) ?ds) ! 2 =
         fst (send_msg (?fs ! 1) (destinations (forwardServerToClients (map Received (take 1 ?fs)) ?ds) ! 2))"
    by (rule trans[OF step if_P[OF w]])
  then have next_frame: "destinations (forwardServerToClients
       [Received \<lparr>payload = [1]\<rparr>, Received \<lparr>payload = [2]\<rparr>] ?ds) ! 2 =
     fst (send_msg \<lparr>payload = [2]\<rparr> (destinations (forwardServerToClients
       [Received \<lparr>payload = [1]\<rparr>] ?ds) ! 2))"
    by simp
  have e: "map sendlog (destinations (forwardServerToClients
       [Received \<lparr>payload = [1]\<rparr>, Received \<lparr>payload = [2]\<rparr>, RecvError EOF] ?ds)) =
     [[OpSendMsg \<lparr>payload = [1]\<rparr> None, OpSendMsg \<lparr>payload = [2]\<rparr> None, OpCloseSend],
      [OpSendMsg \<lparr>payload = [1]\<rparr> (Some (Failure ''write failed'')), OpSendMsg \<lparr>payload = [2]\<rparr> None,
       OpCloseSend],
      [OpSendMsg \<lparr>payload = [2]\<rparr> None, OpCloseSend]]"
    by code_simp
  have k: "(0::nat) < length ?ds" by simp
  have h: "\<forall>j \<le> (0::nat). sends_succeed (?ds ! j)"
    by (simp add: sends_succeed_def backend_replying_def)
  from broadcast_delivers_in_order[of ?fs "[]" ?ds] k h
  have "sendlog (destinations (forwardServerToClients (map Received ?fs @ RecvError EOF # []) ?ds) ! 0) =
        sendlog (?ds ! 0) @ map (\<lambda>f. OpSendMsg f None) ?fs @ [OpCloseSend]"
    by blast
  then have "sendlog (destinations (forwardServerToClients
       [Received \<lparr>payload = [1]\<rparr>, Received \<lparr>payload = [2]\<rparr>, RecvError EOF] ?ds) ! 0) =
     [OpSendMsg \<lparr>payload = [1]\<rparr> None, OpSendMsg \<lparr>payload = [2]\<rparr> None, OpCloseSend]"
    by (simp add: backend_replying_def)
  with e k h w0 w1 next_frame show ?thesis by simp
qed

text \<open>
  Not every backend is sent every frame: when the write to the first backend fails, the
  inner loop is left, and the second backend is never sent the frame; it only sees the
  half-close.
\<close>

theorem broadcast_skips_after_failure_counterexample:
  "map sendlog (destinations (forwardServerToClients [Received \<lparr>payload = [1]\<rparr>, RecvError EOF]
       [backend_refusing_writes, backend_replying [66]])) =
     [[OpSendMsg \<lparr>payload = [1]\<rparr> (Some (Failure ''write failed'')), OpCloseSend], [OpCloseSend]]"
  by code_simp

section \<open>Proofs: what the fan-in pipeline merges\<close>

lemma sent_frames_append: "sent_frames (es @ es') = sent_frames es @ sent_frames es'"
  by (induction es rule: sent_frames.induct) simp_all

lemma merge_payloads_concat: "merge_payloads bs = concat bs"
proof -
  have "foldl (\<lambda>merged b. merged @ b) acc bs = acc @ concat bs" for acc
    by (induction bs arbitrary: acc) simp_all
  then show ?thesis by (simp add: merge_payloads_def)
qed

lemma mset_concat_update:
  "i < length xs \<Longrightarrow>
     mset (concat (map f (xs[i := y]))) + mset (f (xs ! i)) = mset (concat (map f xs)) + mset (f y)"
proof (induction xs arbitrary: i)
  case Nil
  then show ?case by simp
next
  case (Cons x xs)
  then show ?case by (cases i) (simp_all add: ac_simps)
qed

lemma follower_step_pending:
  assumes "follower_step dst i fo ch = Some (fo', evs, ch', p)"
  shows "buf ch' @ pending_payloads fo' = buf ch @ pending_payloads fo"
    and "cap ch' = cap ch"
    and "length (buf ch) \<le> cap ch \<Longrightarrow> length (buf ch') \<le> cap ch"
    and "sent_frames evs = []"
  using assms
  by (auto simp: follower_step_def pending_payloads_def queued_payloads_def chan_send_def Let_def
      split: follower_pc.splits list.splits recv_result.splits sum.splits if_splits option.splits)

lemma exited_pending: "list_all (\<lambda>fo. fpc fo = Exited) fos \<Longrightarrow> concat (map pending_payloads fos) = []"
  by (induction fos) (simp_all add: pending_payloads_def)

lemma coordinator_step_merge_inv:
  assumes "coordinator_step dst st = Some st'" and "merge_inv n tot st"
  shows "merge_inv n tot st'"
proof (cases "coordinator st")
  case AtWait
  with assms(1) have ex: "list_all (\<lambda>fo. fpc fo = Exited) (followers st)"
    and st': "st' = st\<lparr>payloadCh := (payloadCh st)\<lparr>buf := [], closed := True\<rparr>,
                      events := events st @ [EvSendMsg \<lparr>payload = concat (buf (payloadCh st))\<rparr>],
                      coordinator := AtRetSend (send_msg_result dst \<lparr>payload = concat (buf (payloadCh st))\<rparr>)\<rparr>"
    by (auto simp: coordinator_step_def Let_def merge_payloads_concat split: if_splits)
  from assms(2) AtWait ex have "mset (buf (payloadCh st)) = tot" "length (buf (payloadCh st)) \<le> n"
    "sent_frames (events st) = []" "length (followers st) = n" "cap (payloadCh st) = n"
    by (simp_all add: merge_inv_def exited_pending)
  then show ?thesis
    by (auto simp: merge_inv_def st' sent_frames_append)
next
  case (AtRetSend r)
  with assms show ?thesis
    by (auto simp: coordinator_step_def merge_inv_def chan_send_def split: if_splits)
next
  case CoordinatorExited
  with assms show ?thesis by (simp add: coordinator_step_def)
qed

lemma follower_step_merge_inv:
  assumes "c2s_step dst (Follower i) st = Some st'" and "merge_inv n tot st"
  shows "merge_inv n tot st'"
proof -
  from assms(1) obtain fo evs ch p where i: "i < length (followers st)"
    and fs: "follower_step dst i (followers st ! i) (payloadCh st) = Some (fo, evs, ch, p)"
    and st': "st' = st\<lparr>followers := (followers st)[i := fo], payloadCh := ch,
                       events := events st @ evs, panicked := p\<rparr>"
    by (auto simp: c2s_step_def split: if_splits option.splits)
  note f = follower_step_pending[OF fs]
  show ?thesis
  proof (cases "coordinator st")
    case AtWait
    have "mset (buf ch) + mset (concat (map pending_payloads ((followers st)[i := fo])))
            + mset (pending_payloads (followers st ! i))
          = mset (buf ch @ pending_payloads fo) + mset (concat (map pending_payloads (followers st)))"
      using mset_concat_update[OF i, of pending_payloads fo] by (simp add: ac_simps)
    also have "\<dots> = mset (buf (payloadCh st)) + mset (concat (map pending_payloads (followers st)))
                     + mset (pending_payloads (followers st ! i))"
      by (simp add: f(1) ac_simps)
    finally have "mset (buf ch) + mset (concat (map pending_payloads ((followers st)[i := fo])))
          = mset (buf (payloadCh st)) + mset (concat (map pending_payloads (followers st)))"
      by simp
    with assms(2) AtWait f(2,3,4) show ?thesis
      by (simp add: merge_inv_def st' sent_frames_append)
  next
    case (AtRetSend r)
    with assms(2) f(2,4) show ?thesis
      by (simp add: merge_inv_def st' sent_frames_append)
  next
    case CoordinatorExited
    with assms(2) f(2,4) show ?thesis
      by (simp add: merge_inv_def st' sent_frames_append)
  qed
qed

lemma c2s_step_merge_inv:
  "c2s_step dst g st = Some st' \<Longrightarrow> merge_inv n tot st \<Longrightarrow> merge_inv n tot st'"
  by (cases g) (auto intro: follower_step_merge_inv coordinator_step_merge_inv
      simp: c2s_step_def[where g = Coordinator] split: if_splits)

lemma c2s_run_merge_inv: "merge_inv n tot st \<Longrightarrow> merge_inv n tot (c2s_run dst sched st)"
proof (induction sched arbitrary: st)
  case Nil
  then show ?case by simp
next
  case (Cons g gs)
  then show ?case by (cases "c2s_step dst g st") (auto intro: c2s_step_merge_inv)
qed

lemma c2s_init_merge_inv:
  "merge_inv (length sources) (mset (concat (map queued_payloads sources))) (c2s_init sources)"
proof -
  have h: "map (pending_payloads \<circ> (\<lambda>s. \<lparr>fpc = AtRecvMsg 0, src = s\<rparr>)) sources = map queued_payloads sources"
    by (simp add: pending_payloads_def)
  show ?thesis
    by (simp add: merge_inv_def c2s_init_def make_chan_def h)
qed

lemma single_by_mset:
  assumes "mset ps = mset qs" and "length ps \<le> 1"
  shows "ps = qs"
proof -
  from assms(1) have "length ps = length qs" by (rule mset_eq_length)
  with assms show ?thesis
    by (cases ps; cases qs) auto
qed

section \<open>Proofs: what the followers do\<close>

lemma follower_step_events:
  assumes "follower_step dst i fo ch = Some (fo', evs, ch', p)"
  shows "evs @ remaining_events dst i fo' = remaining_events dst i fo"
    and "\<forall>e \<in> set evs. follower_of e = Some i"
    and "fpc fo = AtRecvMsg 0 \<Longrightarrow> 2 \<le> length evs"
    and "fpc fo' \<noteq> Exited \<Longrightarrow> \<forall>e. EvRecv i (RecvError e) \<notin> set evs"
    and "fpc fo = Exited \<Longrightarrow> False"
    and "fpc fo' \<noteq> Exited \<Longrightarrow> \<forall>e. EvLog (LogHeaderError i e) \<notin> set evs"
  using assms
  by (auto simp: follower_step_def remaining_events_def chan_send_def Let_def
      split: follower_pc.splits list.splits recv_result.splits sum.splits if_splits option.splits)

lemma follower_ok_step:
  assumes "follower_step dst i fo ch = Some (fo', evs, ch', p)" and "follower_ok dst i s tr fo"
  shows "follower_ok dst i s (tr @ evs) fo'"
proof -
  note f = follower_step_events[OF assms(1)]
  have 1: "(tr @ evs) @ remaining_events dst i fo' =
             follower_rest dst i (header_result s) (trailer_md s) 0 (recv_script s)"
    using assms(2) f(1) by (simp add: follower_ok_def)
  have 2: "tr @ evs = [] \<and> fpc fo' = AtRecvMsg 0 \<or> 2 \<le> length (tr @ evs)"
    using assms(2) f(3) by (auto simp: follower_ok_def)
  have "fpc fo \<noteq> Exited" using f(5) by blast
  then have 3: "fpc fo' = Exited \<or> (\<forall>e. EvRecv i (RecvError e) \<notin> set (tr @ evs))"
    using assms(2) f(4) by (auto simp: follower_ok_def)
  from \<open>fpc fo \<noteq> Exited\<close>
  have 4: "fpc fo' = Exited \<or> (\<forall>e. EvLog (LogHeaderError i e) \<notin> set (tr @ evs))"
    using assms(2) f(6) by (auto simp: follower_ok_def)
  from 1 2 3 4 show ?thesis unfolding follower_ok_def by blast
qed

lemma follower_events_own:
  "\<forall>e \<in> set evs. follower_of e = Some i \<Longrightarrow> follower_events i (es @ evs) = follower_events i es @ evs"
  by (simp add: follower_events_def)

lemma follower_events_other:
  "\<forall>e \<in> set evs. follower_of e = Some k \<Longrightarrow> i \<noteq> k \<Longrightarrow> follower_events i (es @ evs) = follower_events i es"
  by (simp add: follower_events_def)

lemma c2s_step_trace_inv:
  assumes "c2s_step dst g st = Some st'" and "trace_inv dst sources st"
  shows "trace_inv dst sources st'"
proof (cases g)
  case Coordinator
  with assms(1) have "followers st' = followers st"
    and "follower_events i (events st') = follower_events i (events st)" for i
    by (auto simp: c2s_step_def coordinator_step_def follower_events_def Let_def chan_send_def
        split: if_splits coordinator_pc.splits)
  with assms(2) show ?thesis by (simp add: trace_inv_def)
next
  case (Follower k)
  with assms(1) obtain fo evs ch p where k: "k < length (followers st)"
    and fs: "follower_step dst k (followers st ! k) (payloadCh st) = Some (fo, evs, ch, p)"
    and st': "st' = st\<lparr>followers := (followers st)[k := fo], payloadCh := ch,
                       events := events st @ evs, panicked := p\<rparr>"
    by (auto simp: c2s_step_def split: if_splits option.splits)
  note own = follower_step_events(2)[OF fs]
  have len: "length (followers st) = length sources"
    using assms(2) by (simp add: trace_inv_def)
  have "follower_ok dst i (sources ! i) (follower_events i (events st')) (followers st' ! i)"
    if i: "i < length sources" for i
  proof (cases "i = k")
    case True
    have "follower_ok dst k (sources ! k) (follower_events k (events st)) (followers st ! k)"
      using assms(2) i True by (simp add: trace_inv_def)
    from follower_ok_step[OF fs this] show ?thesis
      using True k by (simp add: st' follower_events_own[OF own])
  next
    case False
    have "follower_ok dst i (sources ! i) (follower_events i (events st)) (followers st ! i)"
      using assms(2) i by (simp add: trace_inv_def)
    then show ?thesis
      using False by (simp add: st' follower_events_other[OF own])
  qed
  then show ?thesis by (simp add: trace_inv_def st' len)
qed

lemma c2s_run_trace_inv: "trace_inv dst sources st \<Longrightarrow> trace_inv dst sources (c2s_run dst sched st)"
proof (induction sched arbitrary: st)
  case Nil
  then show ?case by simp
next
  case (Cons g gs)
  then show ?case by (cases "c2s_step dst g st") (auto intro: c2s_step_trace_inv)
qed

lemma c2s_init_trace_inv: "trace_inv dst sources (c2s_init sources)"
  by (simp add: trace_inv_def c2s_init_def follower_ok_def follower_events_def remaining_events_def)

lemma queue_after_header:
  assumes "follower_rest dst i hdr trl 0 rs = pre @ EvQueue i p # post"
  shows "\<exists>md. hdr = Inr md \<and> EvSetHeader i md \<in> set pre"
proof (cases rs)
  case Nil
  with assms show ?thesis by simp
next
  case (Cons r rest)
  show ?thesis
  proof (cases r)
    case (RecvError e)
    with Cons assms show ?thesis
      by (auto simp: Cons_eq_append_conv split: if_splits)
  next
    case (Received f)
    show ?thesis
    proof (cases hdr)
      case (Inl e)
      with Cons Received assms show ?thesis
        by (auto simp: Cons_eq_append_conv)
    next
      case (Inr md)
      with Cons Received assms show ?thesis
        by (auto simp: Cons_eq_append_conv)
    qed
  qed
qed

lemma header_after_first_frame:
  assumes "follower_rest dst i hdr trl 0 rs = EvRecv i (Received f) # e2 # es" and "hdr = Inr md"
  shows "e2 = EvSetHeader i md"
proof (cases rs)
  case Nil
  with assms show ?thesis by simp
next
  case (Cons r rest)
  with assms show ?thesis
    by (cases r) (auto split: if_splits)
qed

lemma after_recv_error:
  "follower_rest dst i hdr trl j rs = pre @ EvRecv i (RecvError e) # post \<Longrightarrow>
     post = (if e = EOF then [EvSetTrailer i trl] else [EvLog (LogRecvError i e)])"
proof (induction rs arbitrary: j pre)
  case Nil
  then show ?case by simp
next
  case (Cons r rest)
  show ?case
  proof (cases r)
    case (RecvError e')
    with Cons.prems show ?thesis
      by (auto simp: Cons_eq_append_conv split: if_splits)
  next
    case (Received f)
    with Cons.prems Cons.IH show ?thesis
      by (auto simp: Cons_eq_append_conv split: if_splits sum.splits option.splits)
  qed
qed

lemma follower_events_split:
  "follower_events i (pre @ e # post) =
     follower_events i pre @ (if follower_of e = Some i then [e] else []) @ follower_events i post"
  by (simp add: follower_events_def)

lemma follower_events_subset: "set (follower_events i es) \<subseteq> set es"
  by (auto simp: follower_events_def)

section \<open>Proofs: the error channel of the fan-in pipeline\<close>

lemma c2s_step_ret_inv:
  assumes "c2s_step dst g st = Some st'" and "ret_inv dst st"
  shows "ret_inv dst st'"
proof (cases g)
  case Coordinator
  with assms show ?thesis
    by (cases "coordinator st")
       (auto simp: c2s_step_def coordinator_step_def ret_inv_def Let_def chan_send_def sent_frames_append
          split: if_splits)
next
  case (Follower k)
  with assms(1) obtain fo evs ch p where
        fs: "follower_step dst k (followers st ! k) (payloadCh st) = Some (fo, evs, ch, p)"
    and st': "st' = st\<lparr>followers := (followers st)[k := fo], payloadCh := ch,
                       events := events st @ evs, panicked := p\<rparr>"
    by (auto simp: c2s_step_def split: if_splits option.splits)
  from follower_step_pending(4)[OF fs] assms(2) show ?thesis
    by (cases "coordinator st") (simp_all add: ret_inv_def st' sent_frames_append)
qed

lemma c2s_run_ret_inv: "ret_inv dst st \<Longrightarrow> ret_inv dst (c2s_run dst sched st)"
proof (induction sched arbitrary: st)
  case Nil
  then show ?case by simp
next
  case (Cons g gs)
  then show ?case by (cases "c2s_step dst g st") (auto intro: c2s_step_ret_inv)
qed

lemma c2s_init_ret_inv: "ret_inv dst (c2s_init sources)"
  by (simp add: ret_inv_def c2s_init_def make_chan_def)

lemma ret_inv_signal:
  assumes "ret_inv dst st" and "v \<in> set (buf (c2s_ret st))"
  shows "\<exists>m. sent_frames (events st) = [m] \<and> v = send_msg_result dst m"
  using assms by (cases "coordinator st") (auto simp: ret_inv_def)

lemma forwardClientsToServerUnary_ret:
  "ret_inv dst (forwardClientsToServerUnary dst sources sched)"
  unfolding forwardClientsToServerUnary_def by (rule c2s_run_ret_inv[OF c2s_init_ret_inv])

section \<open>Proofs: the fan-in pipeline can complete\<close>

lemma length_concat_update:
  assumes "i < length xs"
  shows "length (concat (map f (xs[i := y]))) + length (f (xs ! i)) =
         length (concat (map f xs)) + length (f y)"
proof -
  have "size (mset (concat (map f (xs[i := y]))) + mset (f (xs ! i))) =
        size (mset (concat (map f xs)) + mset (f y))"
    by (simp only: mset_concat_update[OF assms])
  then show ?thesis by simp
qed

lemma sum_list_update_nat:
  "i < length xs \<Longrightarrow>
     sum_list (map f (xs[i := y])) + f (xs ! i) = sum_list (map f xs) + (f y :: nat)"
proof (induction xs arbitrary: i)
  case Nil
  then show ?case by simp
next
  case (Cons x xs)
  then show ?case by (cases i) simp_all
qed

lemma follower_step_live:
  assumes "follower_step dst i fo ch = Some (fo', evs, ch', p)"
    and "\<not> closed ch" and "stream_ends (src fo)"
  shows "\<not> p" and "\<not> closed ch'" and "fpc fo' = Exited \<or> stream_ends (src fo')"
    and "follower_steps_left fo' < follower_steps_left fo"
  using assms
  by (auto simp: follower_step_def stream_ends_def follower_steps_left_def chan_send_def Let_def
      split: follower_pc.splits list.splits recv_result.splits sum.splits if_splits option.splits)

lemma follower_can_step:
  assumes "fpc fo \<noteq> Exited" and "stream_ends (src fo)" and "\<not> closed ch"
    and "length (buf ch) + length (pending_payloads fo) \<le> cap ch"
  shows "follower_step dst i fo ch \<noteq> None"
  using assms
  by (auto simp: follower_step_def stream_ends_def pending_payloads_def chan_send_def Let_def
      split: follower_pc.splits list.splits recv_result.splits sum.splits if_splits option.splits)

lemma list_all_update: "list_all P xs \<Longrightarrow> P y \<Longrightarrow> list_all P (xs[i := y])"
  by (induction xs arbitrary: i) (auto split: nat.splits)

lemma length_nth_le_concat: "i < length xs \<Longrightarrow> length (f (xs ! i)) \<le> length (concat (map f xs))"
proof (induction xs arbitrary: i)
  case Nil
  then show ?case by simp
next
  case (Cons x xs)
  then show ?case by (cases i) (auto intro: trans_le_add2)
qed

lemma exited_cannot_step:
  "list_all (\<lambda>fo. fpc fo = Exited) fos \<Longrightarrow> i < length fos \<Longrightarrow> follower_step dst i (fos ! i) ch = None"
  by (simp add: list_all_length follower_step_def)

lemma c2s_step_live_inv:
  assumes "c2s_step dst g st = Some st'" and "live_inv st"
  shows "live_inv st'"
proof (cases g)
  case Coordinator
  with assms show ?thesis
    by (cases "coordinator st")
       (auto simp: c2s_step_def coordinator_step_def live_inv_def Let_def chan_send_def make_chan_def
          split: if_splits)
next
  case (Follower k)
  with assms(1) obtain fo evs ch p where k: "k < length (followers st)"
    and fs: "follower_step dst k (followers st ! k) (payloadCh st) = Some (fo, evs, ch, p)"
    and st': "st' = st\<lparr>followers := (followers st)[k := fo], payloadCh := ch,
                       events := events st @ evs, panicked := p\<rparr>"
    by (auto simp: c2s_step_def split: if_splits option.splits)
  have wait: "coordinator st = AtWait"
  proof (rule ccontr)
    assume "coordinator st \<noteq> AtWait"
    with assms(2) have "list_all (\<lambda>fo. fpc fo = Exited) (followers st)"
      by (cases "coordinator st") (simp_all add: live_inv_def)
    from exited_cannot_step[OF this k] fs show False by simp
  qed
  from assms(2) wait have open_ch: "\<not> closed (payloadCh st)"
    and room: "length (buf (payloadCh st)) + length (concat (map pending_payloads (followers st)))
                 \<le> cap (payloadCh st)"
    and ret: "c2s_ret st = make_chan 1"
    and all: "list_all (\<lambda>fo. fpc fo = Exited \<or> stream_ends (src fo)) (followers st)"
    and np: "\<not> panicked st"
    by (simp_all add: live_inv_def)
  have "fpc (followers st ! k) \<noteq> Exited"
    using follower_step_events(5)[OF fs] by blast
  with all k have ends: "stream_ends (src (followers st ! k))"
    by (auto simp: list_all_length)
  note l = follower_step_live[OF fs open_ch ends]
  note q = follower_step_pending[OF fs]
  have "length (buf ch) + length (pending_payloads fo) =
        length (buf (payloadCh st)) + length (pending_payloads (followers st ! k))"
    using arg_cong[OF q(1), of length] by simp
  with length_concat_update[OF k, of pending_payloads fo] room
  have room': "length (buf ch) + length (concat (map pending_payloads ((followers st)[k := fo])))
                 \<le> cap (payloadCh st)"
    by linarith
  have all': "list_all (\<lambda>fo. fpc fo = Exited \<or> stream_ends (src fo)) ((followers st)[k := fo])"
    using all l(3) by (rule list_all_update)
  from l(1,2) room' all' ret wait q(2) show ?thesis
    by (simp add: live_inv_def st')
qed

lemma c2s_run_live_inv: "live_inv st \<Longrightarrow> live_inv (c2s_run dst sched st)"
proof (induction sched arbitrary: st)
  case Nil
  then show ?case by simp
next
  case (Cons g gs)
  then show ?case by (cases "c2s_step dst g st") (auto intro: c2s_step_live_inv)
qed

lemma c2s_init_live_inv:
  assumes "list_all stream_ends sources"
    and "length (concat (map queued_payloads sources)) \<le> length sources"
  shows "live_inv (c2s_init sources)"
proof -
  have h: "map (pending_payloads \<circ> (\<lambda>s. \<lparr>fpc = AtRecvMsg 0, src = s\<rparr>)) sources = map queued_payloads sources"
    by (simp add: pending_payloads_def)
  from assms show ?thesis
    by (simp add: live_inv_def c2s_init_def make_chan_def h list_all_iff)
qed

lemma live_progress:
  assumes "live_inv st" and "coordinator st \<noteq> CoordinatorExited"
  shows "\<exists>g st'. c2s_step dst g st = Some st' \<and> steps_left st' < steps_left st"
proof (cases "list_all (\<lambda>fo. fpc fo = Exited) (followers st)")
  case True
  with assms show ?thesis
    by (cases "coordinator st")
       (auto simp: c2s_step_def coordinator_step_def live_inv_def steps_left_def Let_def
          chan_send_def make_chan_def intro!: exI[of _ Coordinator])
next
  case False
  then obtain k where k: "k < length (followers st)" and ne: "fpc (followers st ! k) \<noteq> Exited"
    by (auto simp: list_all_length)
  from False assms(1) have wait: "coordinator st = AtWait"
    by (cases "coordinator st") (simp_all add: live_inv_def)
  from assms(1) wait have open_ch: "\<not> closed (payloadCh st)"
    and room: "length (buf (payloadCh st)) + length (concat (map pending_payloads (followers st)))
                 \<le> cap (payloadCh st)"
    and all: "list_all (\<lambda>fo. fpc fo = Exited \<or> stream_ends (src fo)) (followers st)"
    and np: "\<not> panicked st"
    by (simp_all add: live_inv_def)
  from all k ne have ends: "stream_ends (src (followers st ! k))"
    by (auto simp: list_all_length)
  from room length_nth_le_concat[OF k, of pending_payloads]
  have "length (buf (payloadCh st)) + length (pending_payloads (followers st ! k)) \<le> cap (payloadCh st)"
    by linarith
  from follower_can_step[OF ne ends open_ch this, of dst k]
  obtain fo evs ch p where
    fs: "follower_step dst k (followers st ! k) (payloadCh st) = Some (fo, evs, ch, p)"
    by (cases "follower_step dst k (followers st ! k) (payloadCh st)") auto
  define st' where "st' = st\<lparr>followers := (followers st)[k := fo], payloadCh := ch,
                       events := events st @ evs, panicked := p\<rparr>"
  have step: "c2s_step dst (Follower k) st = Some st'"
    using k fs np by (simp add: c2s_step_def st'_def)
  from follower_step_live(4)[OF fs open_ch ends] sum_list_update_nat[OF k, of follower_steps_left fo]
  have "steps_left st' < steps_left st"
    by (simp add: steps_left_def st'_def)
  with step show ?thesis by blast
qed

lemma live_completes:
  "live_inv st \<Longrightarrow> \<exists>more. coordinator (c2s_run dst more st) = CoordinatorExited"
proof (induction "steps_left st" arbitrary: st rule: less_induct)
  case less
  show ?case
  proof (cases "coordinator st = CoordinatorExited")
    case True
    then have "coordinator (c2s_run dst [] st) = CoordinatorExited" by simp
    then show ?thesis by blast
  next
    case False
    from live_progress[OF less.prems False, of dst]
    obtain g st' where step: "c2s_step dst g st = Some st'" and lt: "steps_left st' < steps_left st"
      by blast
    from c2s_step_live_inv[OF step less.prems] have "live_inv st'" .
    from less.hyps[OF lt this] obtain more where "coordinator (c2s_run dst more st') = CoordinatorExited"
      by blast
    with step have "coordinator (c2s_run dst (g # more) st) = CoordinatorExited" by simp
    then show ?thesis by blast
  qed
qed

lemma c2s_run_append: "c2s_run dst (xs @ ys) st = c2s_run dst ys (c2s_run dst xs st)"
  by (induction xs arbitrary: st) simp_all

lemma fan_in_can_complete:
  assumes "list_all stream_ends sources"
    and "length (concat (map queued_payloads sources)) \<le> length sources"
  shows "\<exists>more. coordinator (forwardClientsToServerUnary dst sources (sched @ more)) = CoordinatorExited"
proof -
  have "live_inv (c2s_run dst sched (c2s_init sources))"
    by (rule c2s_run_live_inv[OF c2s_init_live_inv[OF assms]])
  from live_completes[OF this, of dst] show ?thesis
    by (simp add: forwardClientsToServerUnary_def c2s_run_append)
qed

section \<open>Proofs: a follower runs to its end\<close>

lemma follower_step_open:
  assumes "follower_step dst i fo ch = Some (fo', evs, ch', p)" and "\<not> closed ch"
  shows "\<not> p" and "\<not> closed ch'"
  using assms
  by (auto simp: follower_step_def chan_send_def Let_def
      split: follower_pc.splits list.splits recv_result.splits sum.splits if_splits option.splits)

lemma c2s_step_room_inv:
  assumes "c2s_step dst g st = Some st'" and "room_inv st"
  shows "room_inv st'"
proof (cases g)
  case Coordinator
  with assms show ?thesis
    by (cases "coordinator st")
       (auto simp: c2s_step_def coordinator_step_def room_inv_def Let_def chan_send_def
          split: if_splits)
next
  case (Follower k)
  with assms(1) obtain fo evs ch p where k: "k < length (followers st)"
    and fs: "follower_step dst k (followers st ! k) (payloadCh st) = Some (fo, evs, ch, p)"
    and st': "st' = st\<lparr>followers := (followers st)[k := fo], payloadCh := ch,
                       events := events st @ evs, panicked := p\<rparr>"
    by (auto simp: c2s_step_def split: if_splits option.splits)
  have wait: "coordinator st = AtWait"
  proof (rule ccontr)
    assume "coordinator st \<noteq> AtWait"
    with assms(2) have "list_all (\<lambda>fo. fpc fo = Exited) (followers st)"
      by (cases "coordinator st") (simp_all add: room_inv_def)
    from exited_cannot_step[OF this k] fs show False by simp
  qed
  from assms(2) wait have open_ch: "\<not> closed (payloadCh st)"
    and room: "length (buf (payloadCh st)) + length (concat (map pending_payloads (followers st)))
                 \<le> cap (payloadCh st)"
    and ret: "\<not> closed (c2s_ret st)"
    by (simp_all add: room_inv_def)
  note l = follower_step_open[OF fs open_ch]
  note q = follower_step_pending[OF fs]
  have "length (buf ch) + length (pending_payloads fo) =
        length (buf (payloadCh st)) + length (pending_payloads (followers st ! k))"
    using arg_cong[OF q(1), of length] by simp
  with length_concat_update[OF k, of pending_payloads fo] room
  have "length (buf ch) + length (concat (map pending_payloads ((followers st)[k := fo])))
                 \<le> cap (payloadCh st)"
    by linarith
  with l ret wait q(2) show ?thesis
    by (simp add: room_inv_def st')
qed

lemma c2s_step_solo_inv:
  assumes "c2s_step dst g st = Some st'" and "solo_inv i st"
  shows "solo_inv i st'"
proof -
  from assms(2) have r: "room_inv st" and i: "i < length (followers st)"
    and e: "fpc (followers st ! i) = Exited \<or> stream_ends (src (followers st ! i))"
    by (simp_all add: solo_inv_def)
  from c2s_step_room_inv[OF assms(1) r] have r': "room_inv st'" .
  show ?thesis
  proof (cases g)
    case Coordinator
    with assms(1) have "followers st' = followers st"
      by (auto simp: c2s_step_def coordinator_step_def Let_def chan_send_def
          split: if_splits coordinator_pc.splits)
    with r' i e show ?thesis by (simp add: solo_inv_def)
  next
    case (Follower k)
    with assms(1) obtain fo evs ch p where k: "k < length (followers st)"
      and fs: "follower_step dst k (followers st ! k) (payloadCh st) = Some (fo, evs, ch, p)"
      and st': "st' = st\<lparr>followers := (followers st)[k := fo], payloadCh := ch,
                         events := events st @ evs, panicked := p\<rparr>"
      by (auto simp: c2s_step_def split: if_splits option.splits)
    show ?thesis
    proof (cases "k = i")
      case False
      with r' i e show ?thesis by (simp add: solo_inv_def st')
    next
      case True
      have ne: "fpc (followers st ! i) \<noteq> Exited"
        using follower_step_events(5)[OF fs] True by blast
      with e have ends: "stream_ends (src (followers st ! i))" by simp
      have "coordinator st = AtWait"
      proof (rule ccontr)
        assume "coordinator st \<noteq> AtWait"
        with r have "list_all (\<lambda>fo. fpc fo = Exited) (followers st)"
          by (cases "coordinator st") (simp_all add: room_inv_def)
        with i ne show False by (simp add: list_all_length)
      qed
      with r have "\<not> closed (payloadCh st)" by (simp add: room_inv_def)
      from follower_step_live(3)[OF fs[unfolded True] this ends] r' i True show ?thesis
        by (simp add: solo_inv_def st')
    qed
  qed
qed

lemma c2s_run_solo_inv: "solo_inv i st \<Longrightarrow> solo_inv i (c2s_run dst sched st)"
proof (induction sched arbitrary: st)
  case Nil
  then show ?case by simp
next
  case (Cons g gs)
  then show ?case by (cases "c2s_step dst g st") (auto intro: c2s_step_solo_inv)
qed

lemma c2s_init_solo_inv:
  assumes "i < length sources" and "stream_ends (sources ! i)"
    and "length (concat (map queued_payloads sources)) \<le> length sources"
  shows "solo_inv i (c2s_init sources)"
proof -
  have h: "map (pending_payloads \<circ> (\<lambda>s. \<lparr>fpc = AtRecvMsg 0, src = s\<rparr>)) sources = map queued_payloads sources"
    by (simp add: pending_payloads_def)
  from assms show ?thesis
    by (simp add: solo_inv_def room_inv_def c2s_init_def make_chan_def h)
qed

lemma follower_runs_to_end:
  "solo_inv i st \<Longrightarrow> \<exists>k. fpc (followers (c2s_run dst (replicate k (Follower i)) st) ! i) = Exited"
proof (induction "follower_steps_left (followers st ! i)" arbitrary: st rule: less_induct)
  case less
  show ?case
  proof (cases "fpc (followers st ! i) = Exited")
    case True
    then have "fpc (followers (c2s_run dst (replicate 0 (Follower i)) st) ! i) = Exited" by simp
    then show ?thesis by blast
  next
    case False
    from less.prems have r: "room_inv st" and i: "i < length (followers st)"
      and e: "fpc (followers st ! i) = Exited \<or> stream_ends (src (followers st ! i))"
      by (simp_all add: solo_inv_def)
    from e False have ends: "stream_ends (src (followers st ! i))" by simp
    have wait: "coordinator st = AtWait"
    proof (rule ccontr)
      assume "coordinator st \<noteq> AtWait"
      with r have "list_all (\<lambda>fo. fpc fo = Exited) (followers st)"
        by (cases "coordinator st") (simp_all add: room_inv_def)
      with i False show False by (simp add: list_all_length)
    qed
    with r have open_ch: "\<not> closed (payloadCh st)"
      and room: "length (buf (payloadCh st)) + length (concat (map pending_payloads (followers st)))
                   \<le> cap (payloadCh st)"
      and np: "\<not> panicked st"
      by (simp_all add: room_inv_def)
    from room length_nth_le_concat[OF i, of pending_payloads]
    have "length (buf (payloadCh st)) + length (pending_payloads (followers st ! i)) \<le> cap (payloadCh st)"
      by linarith
    from follower_can_step[OF False ends open_ch this, of dst i]
    obtain fo evs ch p where
      fs: "follower_step dst i (followers st ! i) (payloadCh st) = Some (fo, evs, ch, p)"
      by (cases "follower_step dst i (followers st ! i) (payloadCh st)") auto
    define st' where "st' = st\<lparr>followers := (followers st)[i := fo], payloadCh := ch,
                         events := events st @ evs, panicked := p\<rparr>"
    have step: "c2s_step dst (Follower i) st = Some st'"
      using i fs np by (simp add: c2s_step_def st'_def)
    have fo: "followers st' ! i = fo" using i by (simp add: st'_def)
    from follower_step_live(4)[OF fs open_ch ends]
    have lt: "follower_steps_left (followers st' ! i) < follower_steps_left (followers st ! i)"
      by (simp add: fo)
    from c2s_step_solo_inv[OF step less.prems] have "solo_inv i st'" .
    from less.hyps[OF lt this] obtain k where
      "fpc (followers (c2s_run dst (replicate k (Follower i)) st') ! i) = Exited"
      by blast
    with step have "fpc (followers (c2s_run dst (replicate (Suc k) (Follower i)) st) ! i) = Exited"
      by simp
    then show ?thesis by blast
  qed
qed

lemma follower_rest_later:
  "follower_rest dst i hdr trl (Suc j) (map Received gs @ RecvError e # rest) =
     concat (map (\<lambda>g. [EvRecv i (Received g), EvQueue i (payload g)]) gs) @
     [EvRecv i (RecvError e), if e = EOF then EvSetTrailer i trl else EvLog (LogRecvError i e)]"
  by (induction gs arbitrary: j) simp_all

lemma follower_rest_whole:
  "follower_rest dst i hdr trl 0 (map Received fs @ RecvError e # rest) =
     (case fs of
        [] \<Rightarrow> [EvRecv i (RecvError e), if e = EOF then EvSetTrailer i trl else EvLog (LogRecvError i e)]
      | f # gs \<Rightarrow>
          (case hdr of
             Inl he \<Rightarrow> [EvRecv i (Received f), EvLog (LogHeaderError i he)]
           | Inr md \<Rightarrow>
               [EvRecv i (Received f), EvSetHeader i md] @
               (case set_header_result dst md of None \<Rightarrow> [] | Some se \<Rightarrow> [EvLog (LogSetHeaderError i se)]) @
               [EvQueue i (payload f)] @
               concat (map (\<lambda>g. [EvRecv i (Received g), EvQueue i (payload g)]) gs) @
               [EvRecv i (RecvError e), if e = EOF then EvSetTrailer i trl else EvLog (LogRecvError i e)]))"
  by (cases fs) (simp_all add: follower_rest_later split: sum.splits)

lemma stream_ends_shape: "recv_script s = map Received fs @ RecvError e # rest \<Longrightarrow> stream_ends s"
  by (simp add: stream_ends_def first_error_frames_then)

lemma c2s_step_open_inv:
  assumes "c2s_step dst g st = Some st'" and "open_inv st"
  shows "open_inv st'"
proof (cases g)
  case Coordinator
  with assms show ?thesis
    by (cases "coordinator st")
       (auto simp: c2s_step_def coordinator_step_def open_inv_def Let_def chan_send_def
          split: if_splits)
next
  case (Follower k)
  with assms(1) obtain fo evs ch p where k: "k < length (followers st)"
    and fs: "follower_step dst k (followers st ! k) (payloadCh st) = Some (fo, evs, ch, p)"
    and st': "st' = st\<lparr>followers := (followers st)[k := fo], payloadCh := ch,
                       events := events st @ evs, panicked := p\<rparr>"
    by (auto simp: c2s_step_def split: if_splits option.splits)
  have wait: "coordinator st = AtWait"
  proof (rule ccontr)
    assume "coordinator st \<noteq> AtWait"
    with assms(2) have "list_all (\<lambda>fo. fpc fo = Exited) (followers st)"
      by (cases "coordinator st") (simp_all add: open_inv_def)
    from exited_cannot_step[OF this k] fs show False by simp
  qed
  with assms(2) have "\<not> closed (payloadCh st)" and "\<not> closed (c2s_ret st)"
    by (simp_all add: open_inv_def)
  with follower_step_open[OF fs] wait show ?thesis
    by (simp add: open_inv_def st')
qed

lemma c2s_run_open_inv: "open_inv st \<Longrightarrow> open_inv (c2s_run dst sched st)"
proof (induction sched arbitrary: st)
  case Nil
  then show ?case by simp
next
  case (Cons g gs)
  then show ?case by (cases "c2s_step dst g st") (auto intro: c2s_step_open_inv)
qed

lemma c2s_init_open_inv: "open_inv (c2s_init sources)"
  by (simp add: open_inv_def c2s_init_def make_chan_def)

lemma follower_rest_first:
  "\<exists>tl. follower_rest dst i (header_result s) (trailer_md s) 0 (r # rest) = first_events dst i s r @ tl"
  by (cases r) (auto simp: first_events_def split: sum.splits)

lemma length_first_events: "length (first_events dst i s r) = 2"
  by (simp add: first_events_def split: recv_result.splits sum.splits)

lemma follower_first_step:
  assumes "follower_rest dst i hdr trl 0 (recv_script (src fo)) \<noteq> []" and "fpc fo = AtRecvMsg 0"
  shows "\<exists>fo' evs ch' p. follower_step dst i fo ch = Some (fo', evs, ch', p) \<and> evs \<noteq> []"
proof (cases "recv_script (src fo)")
  case Nil
  with assms(1) show ?thesis by simp
next
  case (Cons r rest)
  with assms(2) show ?thesis
    by (cases r) (auto simp: follower_step_def Let_def split: sum.splits)
qed

lemma append_covers_prefix:
  assumes "xs @ ys = as @ bs" and "length as \<le> length xs"
  shows "\<exists>es. xs = as @ es"
  using assms by (auto simp: append_eq_append_conv2)

lemma follower_starts:
  assumes "i < length sources" and "recv_script (sources ! i) = r # rest"
  shows "\<exists>es. follower_events i (events (forwardClientsToServerUnary dst sources (sched @ [Follower i]))) =
               first_events dst i (sources ! i) r @ es"
proof -
  define st where "st = c2s_run dst sched (c2s_init sources)"
  define st2 where "st2 = c2s_run dst [Follower i] st"
  define full where
    "full = follower_rest dst i (header_result (sources ! i)) (trailer_md (sources ! i)) 0 (recv_script (sources ! i))"
  have run: "forwardClientsToServerUnary dst sources (sched @ [Follower i]) = st2"
    by (simp add: forwardClientsToServerUnary_def c2s_run_append st2_def st_def)
  have inv: "trace_inv dst sources st"
    unfolding st_def by (rule c2s_run_trace_inv[OF c2s_init_trace_inv])
  have inv2: "trace_inv dst sources st2"
    unfolding st2_def by (rule c2s_run_trace_inv[OF inv])
  have op: "open_inv st"
    unfolding st_def by (rule c2s_run_open_inv[OF c2s_init_open_inv])
  from inv assms(1) have len: "i < length (followers st)"
    and ok: "follower_ok dst i (sources ! i) (follower_events i (events st)) (followers st ! i)"
    by (simp_all add: trace_inv_def)
  from inv2 assms(1)
  have ok2: "follower_ok dst i (sources ! i) (follower_events i (events st2)) (followers st2 ! i)"
    by (simp add: trace_inv_def)
  from follower_rest_first[of dst i "sources ! i" r rest] assms(2)
  obtain tl where full: "full = first_events dst i (sources ! i) r @ tl"
    by (auto simp: full_def)
  have ne: "follower_events i (events st2) \<noteq> []"
  proof (cases "follower_events i (events st) = []")
    case False
    have "\<exists>evs. events st2 = events st @ evs"
      by (auto simp: st2_def c2s_step_def coordinator_step_def Let_def
          split: option.splits if_splits)
    then obtain evs where "events st2 = events st @ evs" by blast
    with False show ?thesis by (simp add: follower_events_def)
  next
    case True
    with ok have pc: "fpc (followers st ! i) = AtRecvMsg 0"
      and rem: "remaining_events dst i (followers st ! i) = full"
      by (auto simp: follower_ok_def full_def)
    from full length_first_events[of dst i "sources ! i" r] have "full \<noteq> []" by auto
    with rem pc
    have "follower_rest dst i (header_result (src (followers st ! i))) (trailer_md (src (followers st ! i))) 0
            (recv_script (src (followers st ! i))) \<noteq> []"
      by (simp add: remaining_events_def)
    from follower_first_step[OF this pc, of "payloadCh st"] obtain fo' evs ch' p where
      fs: "follower_step dst i (followers st ! i) (payloadCh st) = Some (fo', evs, ch', p)"
      and evs: "evs \<noteq> []"
      by blast
    from op have "\<not> panicked st" by (simp add: open_inv_def)
    with fs len have "events st2 = events st @ evs"
      by (simp add: st2_def c2s_step_def)
    with follower_step_events(2)[OF fs] True evs show ?thesis
      by (simp add: follower_events_own)
  qed
  with ok2 have "2 \<le> length (follower_events i (events st2))"
    by (auto simp: follower_ok_def)
  moreover from ok2 full
  have "follower_events i (events st2) @ remaining_events dst i (followers st2 ! i) =
          first_events dst i (sources ! i) r @ tl"
    by (simp add: follower_ok_def full_def)
  ultimately have "\<exists>es. follower_events i (events st2) = first_events dst i (sources ! i) r @ es"
    using length_first_events[of dst i "sources ! i" r]
    by (intro append_covers_prefix) simp_all
  with run show ?thesis by simp
qed

lemma after_header_failure:
  assumes "follower_rest dst i (Inl he) trl 0 rs = EvRecv i (Received f) # es"
  shows "es = [EvLog (LogHeaderError i he)]"
proof (cases rs)
  case Nil
  with assms show ?thesis by simp
next
  case (Cons r rest)
  with assms show ?thesis
    by (cases r) (auto split: if_splits)
qed

section \<open>The fan-in pipeline: results\<close>

text \<open>
  \<^bold>\<open>C1\<close>, in the form that holds of the code.
  Whenever the fan-in pipeline sends a frame downstream, it sends
  exactly one, and its payload is the concatenation, in some order, of the payloads the
  followers queued, each once: every frame a backend delivered before its first receive
  error, except that a backend whose \<open>Header()\<close> fails after its first frame contributes
  none. There are then at most as many such payloads as backends. With a single backend
  the merged payload is the concatenation of that backend's queued payloads in its
  order. Conversely, when every backend's stream ends and the queued payloads are at most
  as many as the backends, every run can be continued to one in which the merged frame
  is sent.
\<close>

theorem fan_in_merge:
  "(sent_frames (events (forwardClientsToServerUnary dst sources sched)) \<noteq> [] \<longrightarrow>
      length (concat (map queued_payloads sources)) \<le> length sources \<and>
      (\<exists>ps. mset ps = mset (concat (map queued_payloads sources)) \<and>
            sent_frames (events (forwardClientsToServerUnary dst sources sched)) = [\<lparr>payload = concat ps\<rparr>]) \<and>
      (\<forall>s. sources = [s] \<longrightarrow>
            sent_frames (events (forwardClientsToServerUnary dst sources sched)) =
              [\<lparr>payload = concat (queued_payloads s)\<rparr>])) \<and>
   (list_all stream_ends sources \<and> length (concat (map queued_payloads sources)) \<le> length sources \<longrightarrow>
      (\<exists>more. sent_frames (events (forwardClientsToServerUnary dst sources (sched @ more))) \<noteq> []))"
proof (intro conjI impI)
  assume sent: "sent_frames (events (forwardClientsToServerUnary dst sources sched)) \<noteq> []"
  have "merge_inv (length sources) (mset (concat (map queued_payloads sources)))
          (forwardClientsToServerUnary dst sources sched)"
    unfolding forwardClientsToServerUnary_def by (rule c2s_run_merge_inv[OF c2s_init_merge_inv])
  with sent obtain ps where ps: "mset ps = mset (concat (map queued_payloads sources))"
    "length ps \<le> length sources"
    "sent_frames (events (forwardClientsToServerUnary dst sources sched)) = [\<lparr>payload = concat ps\<rparr>]"
    by (cases "coordinator (forwardClientsToServerUnary dst sources sched)") (auto simp: merge_inv_def)
  from ps(1) have "length ps = length (concat (map queued_payloads sources))"
    by (rule mset_eq_length)
  with ps(2) show "length (concat (map queued_payloads sources)) \<le> length sources"
    by simp
  from ps(1,3) show "\<exists>ps. mset ps = mset (concat (map queued_payloads sources)) \<and>
            sent_frames (events (forwardClientsToServerUnary dst sources sched)) = [\<lparr>payload = concat ps\<rparr>]"
    by blast
  have "ps = queued_payloads s" if "sources = [s]" for s
    using ps(1,2) that by (intro single_by_mset) simp_all
  with ps(3) show "\<forall>s. sources = [s] \<longrightarrow>
            sent_frames (events (forwardClientsToServerUnary dst sources sched)) =
              [\<lparr>payload = concat (queued_payloads s)\<rparr>]"
    by metis
next
  assume "list_all stream_ends sources \<and> length (concat (map queued_payloads sources)) \<le> length sources"
  then obtain more where
    ex: "coordinator (forwardClientsToServerUnary dst sources (sched @ more)) = CoordinatorExited"
    using fan_in_can_complete[of sources dst sched] by blast
  have "merge_inv (length sources) (mset (concat (map queued_payloads sources)))
          (forwardClientsToServerUnary dst sources (sched @ more))"
    unfolding forwardClientsToServerUnary_def by (rule c2s_run_merge_inv[OF c2s_init_merge_inv])
  with ex have "sent_frames (events (forwardClientsToServerUnary dst sources (sched @ more))) \<noteq> []"
    by (auto simp: merge_inv_def)
  then show "\<exists>more. sent_frames (events (forwardClientsToServerUnary dst sources (sched @ more))) \<noteq> []"
    by blast
qed

text \<open>
  One backend replying \<open>A\<close>; two backends replying \<open>A\<close> and \<open>B\<close>.
\<close>

theorem fan_in_merge_witness:
  "sent_frames (events (forwardClientsToServerUnary version_call [backend_replying [65]] one_then_merge)) =
     [\<lparr>payload = [65]\<rparr>] \<and>
   (\<exists>ps. mset ps = mset [[65], [66]] \<and>
      sent_frames (events (forwardClientsToServerUnary version_call
          [backend_replying [65], backend_replying [66]] both_then_merge)) = [\<lparr>payload = concat ps\<rparr>]) \<and>
   (\<exists>more. sent_frames (events (forwardClientsToServerUnary version_call
          [backend_replying [65], backend_replying [66]] ([Follower 1, Follower 1] @ more))) \<noteq> [])"
proof -
  have h1: "sent_frames (events (forwardClientsToServerUnary version_call [backend_replying [65]] one_then_merge)) \<noteq> []"
    by code_simp
  have h2: "sent_frames (events (forwardClientsToServerUnary version_call
          [backend_replying [65], backend_replying [66]] both_then_merge)) \<noteq> []"
    by code_simp
  have q: "queued_payloads (backend_replying p) = [p]" for p
    by (simp add: queued_payloads_def backend_replying_def)
  have h3: "list_all stream_ends [backend_replying [65], backend_replying [66]] \<and>
      length (concat (map queued_payloads [backend_replying [65], backend_replying [66]])) \<le>
      length [backend_replying [65], backend_replying [66]]"
    by (simp add: q) (simp add: stream_ends_def backend_replying_def)
  from fan_in_merge[of version_call "[backend_replying [65]]" one_then_merge] h1
  have 1: "sent_frames (events (forwardClientsToServerUnary version_call [backend_replying [65]] one_then_merge)) =
     [\<lparr>payload = [65]\<rparr>]"
    by (simp add: q)
  from fan_in_merge[of version_call "[backend_replying [65], backend_replying [66]]" both_then_merge] h2
  have 2: "\<exists>ps. mset ps = mset [[65], [66]] \<and>
      sent_frames (events (forwardClientsToServerUnary version_call
          [backend_replying [65], backend_replying [66]] both_then_merge)) = [\<lparr>payload = concat ps\<rparr>]"
    by (simp add: q)
  from fan_in_merge[of version_call "[backend_replying [65], backend_replying [66]]" "[Follower 1, Follower 1]"] h3
  have 3: "\<exists>more. sent_frames (events (forwardClientsToServerUnary version_call
          [backend_replying [65], backend_replying [66]] ([Follower 1, Follower 1] @ more))) \<noteq> []"
    by blast
  from 1 2 3 show ?thesis by blast
qed

text \<open>
  The merged frame does not hold every frame received: here the only backend delivers the
  frame \<open>A\<close>, its \<open>Header()\<close> then fails, the follower returns without queuing the frame,
  and the merged frame sent downstream is empty.
\<close>

theorem merge_omits_frame_counterexample:
  "EvRecv 0 (Received \<lparr>payload = [65]\<rparr>) \<in>
      set (events (forwardClientsToServerUnary version_call [backend_without_header] one_then_merge)) \<and>
   sent_frames (events (forwardClientsToServerUnary version_call [backend_without_header] one_then_merge)) =
      [\<lparr>payload = []\<rparr>] \<and>
   concat (received_payloads (recv_script backend_without_header)) = [65]"
  by code_simp

text \<open>
  \<^bold>\<open>C8\<close>, in the form that holds of the code.
  For every follower \<open>i\<close> of the fan-in pipeline, under every schedule: a payload of
  follower \<open>i\<close> is only queued after \<open>SetHeader\<close> was called downstream with the header
  metadata of backend \<open>i\<close>; when the first frame is received and \<open>Header()\<close> yields
  metadata, \<open>SetHeader\<close> with it is the follower's next action; when \<open>Header()\<close> fails
  instead, the follower only logs, propagates and queues nothing, and has returned; after
  \<open>io.EOF\<close> the follower's one further action is \<open>SetTrailer\<close> with the backend's
  trailer, and it has returned; after another receive error it only logs, and has
  returned; and the value on the pipeline's error channel is never a follower's error,
  but the result of sending the merged frame. Moreover, when the backend's stream ends
  and the payloads to queue are at most as many as the backends, the follower, scheduled
  on its own from wherever the run stands, does all of this and returns: its events are
  then the first frame, the header, the first payload queued, each later frame and its
  payload queued, the receive error, and the trailer (after \<open>io.EOF\<close>) or the log entry.
  And with no condition on the channel: a follower whose backend has a first result to
  give, once scheduled, has received it and has acted on it; on a frame it has called
  \<open>SetHeader\<close> with the backend's header, or logged that \<open>Header()\<close> failed; on
  \<open>io.EOF\<close> it has called \<open>SetTrailer\<close>, on another error it has logged it.
\<close>

theorem follower_header_trailer:
  assumes "i < length sources"
  shows "let st = forwardClientsToServerUnary dst sources sched;
             tr = follower_events i (events st)
         in (\<forall>pre p post. events st = pre @ EvQueue i p # post \<longrightarrow>
               (\<exists>md. header_result (sources ! i) = Inr md \<and> EvSetHeader i md \<in> set pre)) \<and>
            (\<forall>f rest md. tr = EvRecv i (Received f) # rest \<and> header_result (sources ! i) = Inr md \<longrightarrow>
               (\<exists>rest'. rest = EvSetHeader i md # rest')) \<and>
            (\<forall>f rest he. tr = EvRecv i (Received f) # rest \<and> header_result (sources ! i) = Inl he \<longrightarrow>
               rest = [EvLog (LogHeaderError i he)] \<and> fpc (followers st ! i) = Exited) \<and>
            (\<forall>pre post. tr = pre @ EvRecv i (RecvError EOF) # post \<longrightarrow>
               post = [EvSetTrailer i (trailer_md (sources ! i))] \<and> fpc (followers st ! i) = Exited) \<and>
            (\<forall>e pre post. e \<noteq> EOF \<and> tr = pre @ EvRecv i (RecvError e) # post \<longrightarrow>
               post = [EvLog (LogRecvError i e)] \<and> fpc (followers st ! i) = Exited) \<and>
            (\<forall>v \<in> set (buf (c2s_ret st)). \<exists>m. sent_frames (events st) = [m] \<and> v = send_msg_result dst m) \<and>
            (\<forall>fs e rest.
               recv_script (sources ! i) = map Received fs @ RecvError e # rest \<and>
               length (concat (map queued_payloads sources)) \<le> length sources \<longrightarrow>
               (\<exists>k. fpc (followers (forwardClientsToServerUnary dst sources
                                      (sched @ replicate k (Follower i))) ! i) = Exited \<and>
                    follower_events i (events (forwardClientsToServerUnary dst sources
                                      (sched @ replicate k (Follower i)))) =
                      (case fs of
                         [] \<Rightarrow>
                           [EvRecv i (RecvError e),
                            if e = EOF then EvSetTrailer i (trailer_md (sources ! i))
                            else EvLog (LogRecvError i e)]
                       | f # gs \<Rightarrow>
                           (case header_result (sources ! i) of
                              Inl he \<Rightarrow> [EvRecv i (Received f), EvLog (LogHeaderError i he)]
                            | Inr md \<Rightarrow>
                                [EvRecv i (Received f), EvSetHeader i md] @
                                (case set_header_result dst md of
                                   None \<Rightarrow> []
                                 | Some se \<Rightarrow> [EvLog (LogSetHeaderError i se)]) @
                                [EvQueue i (payload f)] @
                                concat (map (\<lambda>g. [EvRecv i (Received g), EvQueue i (payload g)]) gs) @
                                [EvRecv i (RecvError e),
                                 if e = EOF then EvSetTrailer i (trailer_md (sources ! i))
                                 else EvLog (LogRecvError i e)])))) \<and>
            (\<forall>r rest.
               recv_script (sources ! i) = r # rest \<longrightarrow>
               (\<exists>es. follower_events i (events (forwardClientsToServerUnary dst sources
                                      (sched @ [Follower i]))) =
                     (case r of
                        RecvError e \<Rightarrow>
                          [EvRecv i (RecvError e),
                           if e = EOF then EvSetTrailer i (trailer_md (sources ! i))
                           else EvLog (LogRecvError i e)]
                      | Received f \<Rightarrow>
                          (case header_result (sources ! i) of
                             Inl he \<Rightarrow> [EvRecv i (Received f), EvLog (LogHeaderError i he)]
                           | Inr md \<Rightarrow> [EvRecv i (Received f), EvSetHeader i md])) @ es))"
proof -
  define st where "st = forwardClientsToServerUnary dst sources sched"
  define tr where "tr = follower_events i (events st)"
  define fo where "fo = followers st ! i"
  define full where
    "full = follower_rest dst i (header_result (sources ! i)) (trailer_md (sources ! i)) 0 (recv_script (sources ! i))"
  have inv: "trace_inv dst sources (forwardClientsToServerUnary dst sources sc)" for sc
    unfolding forwardClientsToServerUnary_def by (rule c2s_run_trace_inv[OF c2s_init_trace_inv])
  with assms have ok: "follower_ok dst i (sources ! i) tr fo"
    by (simp add: trace_inv_def tr_def fo_def st_def)
  then have full: "tr @ remaining_events dst i fo = full"
    and two: "tr = [] \<and> fpc fo = AtRecvMsg 0 \<or> 2 \<le> length tr"
    and ex: "fpc fo = Exited \<or> (\<forall>e. EvRecv i (RecvError e) \<notin> set tr)"
    and hx: "fpc fo = Exited \<or> (\<forall>e. EvLog (LogHeaderError i e) \<notin> set tr)"
    by (simp_all add: follower_ok_def full_def)
  have fin: "tr = full \<and> fpc fo = Exited" if "EvRecv i (RecvError e) \<in> set tr" for e
  proof -
    from that ex have "fpc fo = Exited" by blast
    with full show ?thesis by (simp add: remaining_events_def)
  qed
  have 1: "\<exists>md. header_result (sources ! i) = Inr md \<and> EvSetHeader i md \<in> set pre"
    if "events st = pre @ EvQueue i p # post" for pre p post
  proof -
    from that have "tr = follower_events i pre @ EvQueue i p # follower_events i post"
      by (simp add: tr_def follower_events_split)
    with full have "full = follower_events i pre @ EvQueue i p # (follower_events i post @ remaining_events dst i fo)"
      by simp
    from queue_after_header[OF this[unfolded full_def]] follower_events_subset[of i pre]
    show ?thesis by blast
  qed
  have 2: "\<exists>rest'. rest = EvSetHeader i md # rest'"
    if "tr = EvRecv i (Received f) # rest" and "header_result (sources ! i) = Inr md" for f rest md
  proof -
    from that(1) two obtain e2 es where rest: "rest = e2 # es"
      by (cases rest) auto
    with that(1) full have "full = EvRecv i (Received f) # e2 # (es @ remaining_events dst i fo)"
      by simp
    from header_after_first_frame[OF this[unfolded full_def] that(2)] rest show ?thesis by simp
  qed
  have hf: "rest = [EvLog (LogHeaderError i he)] \<and> fpc fo = Exited"
    if "tr = EvRecv i (Received f) # rest" and "header_result (sources ! i) = Inl he" for f rest he
  proof -
    from that(1) two obtain e2 es where rest: "rest = e2 # es"
      by (cases rest) auto
    from that(1) full have "full = EvRecv i (Received f) # (rest @ remaining_events dst i fo)"
      by simp
    from after_header_failure[OF this[unfolded full_def that(2)]] rest
    have r: "rest = [EvLog (LogHeaderError i he)]"
      by (simp add: append_eq_Cons_conv)
    with that(1) have "EvLog (LogHeaderError i he) \<in> set tr" by simp
    with hx have "fpc fo = Exited" by blast
    with r show ?thesis by simp
  qed
  have 3: "post = (if e = EOF then [EvSetTrailer i (trailer_md (sources ! i))] else [EvLog (LogRecvError i e)])
             \<and> fpc fo = Exited"
    if "tr = pre @ EvRecv i (RecvError e) # post" for e pre post
  proof -
    from that have "EvRecv i (RecvError e) \<in> set tr" by simp
    from fin[OF this] that have "full = pre @ EvRecv i (RecvError e) # post" and "fpc fo = Exited"
      by simp_all
    with after_recv_error[OF this(1)[unfolded full_def]] show ?thesis by simp
  qed
  have "ret_inv dst st"
    unfolding st_def forwardClientsToServerUnary_def by (rule c2s_run_ret_inv[OF c2s_init_ret_inv])
  then have 4: "\<forall>v \<in> set (buf (c2s_ret st)). \<exists>m. sent_frames (events st) = [m] \<and> v = send_msg_result dst m"
    by (blast dest: ret_inv_signal)
  have eofcase: "post = [EvSetTrailer i (trailer_md (sources ! i))] \<and> fpc fo = Exited"
    if "tr = pre @ EvRecv i (RecvError EOF) # post" for pre post
    using 3[OF that] by simp
  have errcase: "post = [EvLog (LogRecvError i e)] \<and> fpc fo = Exited"
    if "e \<noteq> EOF" and "tr = pre @ EvRecv i (RecvError e) # post" for e pre post
    using 3[OF that(2)] that(1) by simp
  have live: "\<exists>k. fpc (followers (forwardClientsToServerUnary dst sources
                                      (sched @ replicate k (Follower i))) ! i) = Exited \<and>
                    follower_events i (events (forwardClientsToServerUnary dst sources
                                      (sched @ replicate k (Follower i)))) =
                      (case fs of
                         [] \<Rightarrow>
                           [EvRecv i (RecvError e),
                            if e = EOF then EvSetTrailer i (trailer_md (sources ! i))
                            else EvLog (LogRecvError i e)]
                       | f # gs \<Rightarrow>
                           (case header_result (sources ! i) of
                              Inl he \<Rightarrow> [EvRecv i (Received f), EvLog (LogHeaderError i he)]
                            | Inr md \<Rightarrow>
                                [EvRecv i (Received f), EvSetHeader i md] @
                                (case set_header_result dst md of
                                   None \<Rightarrow> []
                                 | Some se \<Rightarrow> [EvLog (LogSetHeaderError i se)]) @
                                [EvQueue i (payload f)] @
                                concat (map (\<lambda>g. [EvRecv i (Received g), EvQueue i (payload g)]) gs) @
                                [EvRecv i (RecvError e),
                                 if e = EOF then EvSetTrailer i (trailer_md (sources ! i))
                                 else EvLog (LogRecvError i e)]))"
    if shape: "recv_script (sources ! i) = map Received fs @ RecvError e # rest"
      and room: "length (concat (map queued_payloads sources)) \<le> length sources" for fs e rest
  proof -
    have "solo_inv i (c2s_run dst sched (c2s_init sources))"
      by (rule c2s_run_solo_inv[OF c2s_init_solo_inv[OF assms stream_ends_shape[OF shape] room]])
    from follower_runs_to_end[OF this, of dst] obtain k where
      "fpc (followers (c2s_run dst (replicate k (Follower i)) (c2s_run dst sched (c2s_init sources))) ! i) = Exited"
      by blast
    then have exd: "fpc (followers (forwardClientsToServerUnary dst sources
                                      (sched @ replicate k (Follower i))) ! i) = Exited"
      by (simp add: forwardClientsToServerUnary_def c2s_run_append)
    from inv[of "sched @ replicate k (Follower i)"] assms
    have "follower_ok dst i (sources ! i)
            (follower_events i (events (forwardClientsToServerUnary dst sources
                                      (sched @ replicate k (Follower i)))))
            (followers (forwardClientsToServerUnary dst sources (sched @ replicate k (Follower i))) ! i)"
      by (simp add: trace_inv_def)
    with exd have "follower_events i (events (forwardClientsToServerUnary dst sources
                                      (sched @ replicate k (Follower i)))) = full"
      by (simp add: follower_ok_def remaining_events_def full_def)
    with exd show ?thesis
      unfolding full_def shape follower_rest_whole by blast
  qed
  have start: "\<exists>es. follower_events i (events (forwardClientsToServerUnary dst sources
                                      (sched @ [Follower i]))) =
                     (case r of
                        RecvError e \<Rightarrow>
                          [EvRecv i (RecvError e),
                           if e = EOF then EvSetTrailer i (trailer_md (sources ! i))
                           else EvLog (LogRecvError i e)]
                      | Received f \<Rightarrow>
                          (case header_result (sources ! i) of
                             Inl he \<Rightarrow> [EvRecv i (Received f), EvLog (LogHeaderError i he)]
                           | Inr md \<Rightarrow> [EvRecv i (Received f), EvSetHeader i md])) @ es"
    if "recv_script (sources ! i) = r # rest" for r rest
    using follower_starts[OF assms that, of dst sched] unfolding first_events_def .
  from 1 2 hf eofcase errcase 4 live start show ?thesis
    unfolding Let_def st_def[symmetric] tr_def[symmetric] fo_def[symmetric]
    by blast
qed

text \<open>
  The second of two backends runs to its end on its own, and scheduled once it has
  received its frame and propagated its header; and the trace of a single backend that
  replies \<open>A\<close> and ends its stream.
\<close>

theorem follower_header_trailer_witness:
  "(1::nat) < length [backend_replying [65], backend_replying [66]] \<and>
   (\<exists>k. fpc (followers (forwardClientsToServerUnary version_call [backend_replying [65], backend_replying [66]]
                          ([Follower 0] @ replicate k (Follower 1))) ! 1) = Exited \<and>
        follower_events 1 (events (forwardClientsToServerUnary version_call
                          [backend_replying [65], backend_replying [66]]
                          ([Follower 0] @ replicate k (Follower 1)))) =
          [EvRecv 1 (Received \<lparr>payload = [66]\<rparr>), EvSetHeader 1 [(''content-type'', [''application/grpc''])],
           EvQueue 1 [66], EvRecv 1 (RecvError EOF), EvSetTrailer 1 []]) \<and>
   (\<exists>es. follower_events 1 (events (forwardClientsToServerUnary version_call
                          [backend_replying [65], backend_replying [66]]
                          ([Follower 0] @ [Follower 1]))) =
          [EvRecv 1 (Received \<lparr>payload = [66]\<rparr>), EvSetHeader 1 [(''content-type'', [''application/grpc''])]] @ es) \<and>
   events (forwardClientsToServerUnary version_call [backend_replying [65]] one_then_merge) =
     [EvRecv 0 (Received \<lparr>payload = [65]\<rparr>), EvSetHeader 0 [(''content-type'', [''application/grpc''])],
      EvQueue 0 [65], EvRecv 0 (RecvError EOF), EvSetTrailer 0 [], EvSendMsg \<lparr>payload = [65]\<rparr>] \<and>
   EvSetHeader 0 [(''content-type'', [''application/grpc''])] \<in>
     set [EvRecv 0 (Received \<lparr>payload = [65]\<rparr>), EvSetHeader 0 [(''content-type'', [''application/grpc''])]] \<and>
   fpc (followers (forwardClientsToServerUnary version_call [backend_replying [65]] one_then_merge) ! 0) = Exited"
proof -
  let ?st = "forwardClientsToServerUnary version_call [backend_replying [65]] one_then_merge"
  let ?md = "[(''content-type'', [''application/grpc''])]"
  let ?two = "[backend_replying [65], backend_replying [66]]"
  have h: "(0::nat) < length [backend_replying [65]]" by simp
  have ev: "events ?st =
     [EvRecv 0 (Received \<lparr>payload = [65]\<rparr>), EvSetHeader 0 ?md] @ EvQueue 0 [65] #
     [EvRecv 0 (RecvError EOF), EvSetTrailer 0 [], EvSendMsg \<lparr>payload = [65]\<rparr>]"
    by code_simp
  have tr: "follower_events 0 (events ?st) =
     [EvRecv 0 (Received \<lparr>payload = [65]\<rparr>), EvSetHeader 0 ?md, EvQueue 0 [65]] @
     EvRecv 0 (RecvError EOF) # [EvSetTrailer 0 []]"
    unfolding ev by (simp add: follower_events_def)
  have hd: "header_result ([backend_replying [65]] ! 0) = Inr ?md"
    by (simp add: backend_replying_def)
  note t = follower_header_trailer[OF h, of version_call one_then_merge, unfolded Let_def]
  from t ev have "\<exists>md. header_result ([backend_replying [65]] ! 0) = Inr md \<and>
      EvSetHeader 0 md \<in> set [EvRecv 0 (Received \<lparr>payload = [65]\<rparr>), EvSetHeader 0 ?md]"
    by blast
  with hd have 1: "EvSetHeader 0 ?md \<in> set [EvRecv 0 (Received \<lparr>payload = [65]\<rparr>), EvSetHeader 0 ?md]"
    by simp
  from t tr have 2: "fpc (followers ?st ! 0) = Exited"
    by blast
  have h1: "(1::nat) < length ?two" by simp
  have shape: "recv_script (?two ! 1) = map Received [\<lparr>payload = [66]\<rparr>] @ RecvError EOF # []"
    by (simp add: backend_replying_def)
  have room: "length (concat (map queued_payloads ?two)) \<le> length ?two"
    by (simp add: queued_payloads_def backend_replying_def)
  have sh: "set_header_result version_call md = None" for md
    by (simp add: version_call_def)
  note u = follower_header_trailer[OF h1, of version_call "[Follower 0]", unfolded Let_def]
  from u shape room
  have "\<exists>k. fpc (followers (forwardClientsToServerUnary version_call ?two
                          ([Follower 0] @ replicate k (Follower 1))) ! 1) = Exited \<and>
          follower_events 1 (events (forwardClientsToServerUnary version_call ?two
                          ([Follower 0] @ replicate k (Follower 1)))) =
            (case [\<lparr>payload = [66]\<rparr>] of
               [] \<Rightarrow> [EvRecv 1 (RecvError EOF),
                      if EOF = EOF then EvSetTrailer 1 (trailer_md (?two ! 1)) else EvLog (LogRecvError 1 EOF)]
             | f # gs \<Rightarrow>
                 (case header_result (?two ! 1) of
                    Inl he \<Rightarrow> [EvRecv 1 (Received f), EvLog (LogHeaderError 1 he)]
                  | Inr md \<Rightarrow>
                      [EvRecv 1 (Received f), EvSetHeader 1 md] @
                      (case set_header_result version_call md of
                         None \<Rightarrow> []
                       | Some se \<Rightarrow> [EvLog (LogSetHeaderError 1 se)]) @
                      [EvQueue 1 (payload f)] @
                      concat (map (\<lambda>g. [EvRecv 1 (Received g), EvQueue 1 (payload g)]) gs) @
                      [EvRecv 1 (RecvError EOF),
                       if EOF = EOF then EvSetTrailer 1 (trailer_md (?two ! 1))
                       else EvLog (LogRecvError 1 EOF)]))"
    by blast
  then have 3: "\<exists>k. fpc (followers (forwardClientsToServerUnary version_call ?two
                          ([Follower 0] @ replicate k (Follower 1))) ! 1) = Exited \<and>
        follower_events 1 (events (forwardClientsToServerUnary version_call ?two
                          ([Follower 0] @ replicate k (Follower 1)))) =
          [EvRecv 1 (Received \<lparr>payload = [66]\<rparr>), EvSetHeader 1 ?md,
           EvQueue 1 [66], EvRecv 1 (RecvError EOF), EvSetTrailer 1 []]"
    by (simp add: sh backend_replying_def)
  have first: "recv_script (?two ! 1) = Received \<lparr>payload = [66]\<rparr> # [RecvError EOF]"
    by (simp add: backend_replying_def)
  from u first
  have "\<exists>es. follower_events 1 (events (forwardClientsToServerUnary version_call ?two
                          ([Follower 0] @ [Follower 1]))) =
          (case Received \<lparr>payload = [66]\<rparr> of
             RecvError e \<Rightarrow>
               [EvRecv 1 (RecvError e),
                if e = EOF then EvSetTrailer 1 (trailer_md (?two ! 1)) else EvLog (LogRecvError 1 e)]
           | Received f \<Rightarrow>
               (case header_result (?two ! 1) of
                  Inl he \<Rightarrow> [EvRecv 1 (Received f), EvLog (LogHeaderError 1 he)]
                | Inr md \<Rightarrow> [EvRecv 1 (Received f), EvSetHeader 1 md])) @ es"
    by blast
  then have 4: "\<exists>es. follower_events 1 (events (forwardClientsToServerUnary version_call ?two
                          ([Follower 0] @ [Follower 1]))) =
          [EvRecv 1 (Received \<lparr>payload = [66]\<rparr>), EvSetHeader 1 ?md] @ es"
    by (simp add: backend_replying_def)
  from h1 3 4 ev 1 2 show ?thesis by simp
qed

text \<open>
  A follower does not always propagate a header on its first frame: here the second
  backend delivers the frame \<open>A\<close>, its \<open>Header()\<close> fails, and the follower logs and
  returns; the merged frame holds the first backend's reply only.
\<close>

theorem header_failure_counterexample:
  "follower_events 1 (events (forwardClientsToServerUnary version_call
       [backend_replying [66], backend_without_header] both_then_merge)) =
     [EvRecv 1 (Received \<lparr>payload = [65]\<rparr>), EvLog (LogHeaderError 1 (Failure ''header unavailable''))] \<and>
   fpc (followers (forwardClientsToServerUnary version_call
       [backend_replying [66], backend_without_header] both_then_merge) ! 1) = Exited \<and>
   sent_frames (events (forwardClientsToServerUnary version_call
       [backend_replying [66], backend_without_header] both_then_merge)) = [\<lparr>payload = [66]\<rparr>]"
  by code_simp

section \<open>The pending-error channels: results\<close>

text \<open>
  \<^bold>\<open>C7\<close>, in the form that holds of the code.
  Neither pipeline's error channel is ever closed. The broadcast
  pipeline puts a value on its channel only when a downstream \<open>RecvMsg\<close> fails with an
  error other than \<open>io.EOF\<close>: then exactly one, that error; on \<open>io.EOF\<close> it returns
  with the channel empty. The fan-in pipeline's channel is empty until its coordinator has
  returned, and from then on holds exactly one value, the result of sending the one merged
  frame; when every backend's stream ends and the queued payloads are at most as many as
  the backends, every run can be continued until the coordinator has returned.
\<close>

theorem pending_error_channels:
  "\<not> closed (s2c_ret (forwardServerToClients rs ds)) \<and>
   buf (s2c_ret (forwardServerToClients rs ds)) =
     (case first_error rs of None \<Rightarrow> [] | Some e \<Rightarrow> if e = EOF then [] else [Some e]) \<and>
   s2c_returned (forwardServerToClients rs ds) = (first_error rs \<noteq> None) \<and>
   \<not> closed (c2s_ret (forwardClientsToServerUnary dst sources sched)) \<and>
   buf (c2s_ret (forwardClientsToServerUnary dst sources sched)) =
     (if coordinator (forwardClientsToServerUnary dst sources sched) = CoordinatorExited
      then map (send_msg_result dst) (sent_frames (events (forwardClientsToServerUnary dst sources sched)))
      else []) \<and>
   length (sent_frames (events (forwardClientsToServerUnary dst sources sched))) =
     (if coordinator (forwardClientsToServerUnary dst sources sched) = AtWait then 0 else 1) \<and>
   (list_all stream_ends sources \<and> length (concat (map queued_payloads sources)) \<le> length sources \<longrightarrow>
      (\<exists>more. coordinator (forwardClientsToServerUnary dst sources (sched @ more)) = CoordinatorExited))"
proof -
  have "ret_inv dst (forwardClientsToServerUnary dst sources sched)"
    by (rule forwardClientsToServerUnary_ret)
  then have "\<not> closed (c2s_ret (forwardClientsToServerUnary dst sources sched)) \<and>
   buf (c2s_ret (forwardClientsToServerUnary dst sources sched)) =
     (if coordinator (forwardClientsToServerUnary dst sources sched) = CoordinatorExited
      then map (send_msg_result dst) (sent_frames (events (forwardClientsToServerUnary dst sources sched)))
      else []) \<and>
   length (sent_frames (events (forwardClientsToServerUnary dst sources sched))) =
     (if coordinator (forwardClientsToServerUnary dst sources sched) = AtWait then 0 else 1)"
    by (cases "coordinator (forwardClientsToServerUnary dst sources sched)") (auto simp: ret_inv_def)
  moreover have "list_all stream_ends sources \<and> length (concat (map queued_payloads sources)) \<le> length sources \<longrightarrow>
      (\<exists>more. coordinator (forwardClientsToServerUnary dst sources (sched @ more)) = CoordinatorExited)"
    using fan_in_can_complete[of sources dst sched] by blast
  ultimately show ?thesis
    by (simp add: broadcast_ret broadcast_returned)
qed

text \<open>
  A downstream receive error on the broadcast side; a completed merge on the fan-in side.
\<close>

theorem pending_error_channels_witness:
  "buf (s2c_ret (forwardServerToClients [RecvError (Failure ''connection reset'')] [backend_replying [65]])) =
     [Some (Failure ''connection reset'')] \<and>
   buf (c2s_ret (forwardClientsToServerUnary version_call [backend_replying [65]] one_then_merge)) = [None] \<and>
   \<not> closed (c2s_ret (forwardClientsToServerUnary version_call [backend_replying [65]] one_then_merge)) \<and>
   (\<exists>more. coordinator (forwardClientsToServerUnary version_call [backend_replying [65]]
              ([Follower 0] @ more)) = CoordinatorExited)"
proof -
  have c: "coordinator (forwardClientsToServerUnary version_call [backend_replying [65]] one_then_merge) =
             CoordinatorExited"
    by code_simp
  have s: "sent_frames (events (forwardClientsToServerUnary version_call [backend_replying [65]] one_then_merge)) =
             [\<lparr>payload = [65]\<rparr>]"
    by code_simp
  have sm: "send_msg_result version_call m = None" for m
    by (simp add: version_call_def)
  have h: "list_all stream_ends [backend_replying [65]] \<and>
      length (concat (map queued_payloads [backend_replying [65]])) \<le> length [backend_replying [65]]"
    by (simp add: stream_ends_def queued_payloads_def backend_replying_def)
  from pending_error_channels[of "[RecvError (Failure ''connection reset'')]" "[backend_replying [65]]"
         version_call "[backend_replying [65]]" one_then_merge]
  have 1: "buf (s2c_ret (forwardServerToClients [RecvError (Failure ''connection reset'')] [backend_replying [65]])) =
     [Some (Failure ''connection reset'')] \<and>
   buf (c2s_ret (forwardClientsToServerUnary version_call [backend_replying [65]] one_then_merge)) = [None] \<and>
   \<not> closed (c2s_ret (forwardClientsToServerUnary version_call [backend_replying [65]] one_then_merge))"
    by (simp add: c s sm)
  from pending_error_channels[of "[]" "[]" version_call "[backend_replying [65]]" "[Follower 0]"] h
  have 2: "\<exists>more. coordinator (forwardClientsToServerUnary version_call [backend_replying [65]]
              ([Follower 0] @ more)) = CoordinatorExited"
    by blast
  from 1 2 show ?thesis by blast
qed

text \<open>
  On a clean completion the broadcast pipeline produces no value at all: the goroutine has
  returned and its channel is empty.
\<close>

theorem clean_broadcast_counterexample:
  "s2c_returned (forwardServerToClients [Received \<lparr>payload = []\<rparr>, RecvError EOF] [backend_replying [65]]) \<and>
   buf (s2c_ret (forwardServerToClients [Received \<lparr>payload = []\<rparr>, RecvError EOF] [backend_replying [65]])) = []"
  by code_simp

section \<open>Proofs: the handler\<close>

lemma handler_streaming:
  assumes "method_name srv = Some name"
    and "route_err (director (stream_ctx srv) name) = None"
    and "out_ctx (director (stream_ctx srv) name) = Some oc"
    and "new_client_streams name (backend_conns (director (stream_ctx srv) name)) = (ss, None)"
  shows "handler director srv n sched first =
           (case select2 (s2c_ret (forwardServerToClients (take n (down_recv_script srv)) ss))
                         (c2s_ret (forwardClientsToServerUnary srv ss sched)) first of
              None \<Rightarrow>
                \<lparr>result = BlockedInSelect, client_streams = ss, cancel_called = False,
                 s2c_pipeline = Some (forwardServerToClients (take n (down_recv_script srv)) ss),
                 c2s_pipeline = Some (forwardClientsToServerUnary srv ss sched)\<rparr>
            | Some (S2C e) \<Rightarrow>
                \<lparr>result = Returns (Some (Errorf Internal ''failed proxying s2c: %v'' [e])),
                 client_streams = ss, cancel_called = True,
                 s2c_pipeline = Some (forwardServerToClients (take n (down_recv_script srv)) ss),
                 c2s_pipeline = Some (forwardClientsToServerUnary srv ss sched)\<rparr>
            | Some (C2S e) \<Rightarrow>
                \<lparr>result = Returns (if e \<noteq> Some EOF then e else None),
                 client_streams = ss, cancel_called = False,
                 s2c_pipeline = Some (forwardServerToClients (take n (down_recv_script srv)) ss),
                 c2s_pipeline = Some (forwardClientsToServerUnary srv ss sched)\<rparr>)"
  using assms by (simp add: handler_def Let_def split: option.splits select_case.splits)

lemma handler_open_failure:
  assumes "method_name srv = Some name"
    and "route_err (director (stream_ctx srv) name) = None"
    and "out_ctx (director (stream_ctx srv) name) = Some oc"
    and "new_client_streams name (backend_conns (director (stream_ctx srv) name)) = (ss, Some e)"
  shows "handler director srv n sched first =
           \<lparr>result = Returns (Some e), client_streams = ss, cancel_called = False,
            s2c_pipeline = None, c2s_pipeline = None\<rparr>"
  using assms by (simp add: handler_def Let_def)

lemma new_client_streams_error:
  "new_client_streams name cs = (ss, Some e) \<Longrightarrow>
     length ss < length cs \<and> new_client_stream (cs ! length ss) name = Inl e \<and>
     (\<forall>k < length ss. new_client_stream (cs ! k) name = Inr (ss ! k))"
proof (induction cs arbitrary: ss)
  case Nil
  then show ?case by simp
next
  case (Cons c cs)
  show ?case
  proof (cases "new_client_stream c name")
    case (Inl e')
    with Cons.prems show ?thesis by simp
  next
    case (Inr s)
    obtain ss' r where rec: "new_client_streams name cs = (ss', r)"
      by (cases "new_client_streams name cs")
    with Inr Cons.prems have ss: "ss = s # ss'" and "r = Some e" by simp_all
    with Cons.IH[of ss'] rec have ih: "length ss' < length cs"
      "new_client_stream (cs ! length ss') name = Inl e"
      "\<forall>k < length ss'. new_client_stream (cs ! k) name = Inr (ss' ! k)"
      by simp_all
    have "new_client_stream ((c # cs) ! k) name = Inr (ss ! k)" if "k < length ss" for k
      using that ih(3) Inr ss by (cases k) simp_all
    with ih(1,2) ss show ?thesis by simp
  qed
qed

lemma new_client_streams_ok:
  "new_client_streams name cs = (ss, None) \<Longrightarrow> c \<in> set cs \<Longrightarrow> \<exists>s. new_client_stream c name = Inr s"
proof (induction cs arbitrary: ss)
  case Nil
  then show ?case by simp
next
  case (Cons c' cs)
  show ?case
  proof (cases "new_client_stream c' name")
    case (Inl e')
    with Cons.prems show ?thesis by simp
  next
    case (Inr s)
    obtain ss' r where rec: "new_client_streams name cs = (ss', r)"
      by (cases "new_client_streams name cs")
    with Inr Cons.prems have "r = None" by simp
    with Cons.IH[of ss'] rec Cons.prems(2) Inr show ?thesis by auto
  qed
qed

text \<open>
  \<^bold>\<open>C4\<close>. When the Director returns an error, the handler returns that error at once:
  no backend stream is opened and neither pipeline is started, so no frame is forwarded.
\<close>

theorem handler_director_error:
  assumes "method_name serverStream = Some fullMethodName"
    and "route_err (director (stream_ctx serverStream) fullMethodName) = Some e"
  shows "handler director serverStream n sched first =
           \<lparr>result = Returns (Some e), client_streams = [], cancel_called = False,
            s2c_pipeline = None, c2s_pipeline = None\<rparr>"
  using assms by (simp add: handler_def Let_def)

text \<open>
  The sample Director on a call without incoming metadata.
\<close>

theorem handler_director_error_witness:
  "handler (\<lambda>ctx m. fst (Director dial_up ctx m))
           (version_call\<lparr>stream_ctx := \<lparr>incoming_md = None, outgoing_md = None\<rparr>\<rparr>) 2 both_then_merge True =
     \<lparr>result = Returns (Some (Errorf Unimplemented ''Unknown method'' [])), client_streams = [],
      cancel_called = False, s2c_pipeline = None, c2s_pipeline = None\<rparr>"
proof -
  have m: "method_name (version_call\<lparr>stream_ctx := \<lparr>incoming_md = None, outgoing_md = None\<rparr>\<rparr>) =
             Some ''/machine.Machine/Version''"
    by (simp add: version_call_def)
  have e: "route_err (fst (Director dial_up
              (stream_ctx (version_call\<lparr>stream_ctx := \<lparr>incoming_md = None, outgoing_md = None\<rparr>\<rparr>))
              ''/machine.Machine/Version'')) = Some (Errorf Unimplemented ''Unknown method'' [])"
    by (simp add: Director_def)
  show ?thesis
    by (rule handler_director_error[where director = "\<lambda>ctx m. fst (Director dial_up ctx m)", OF m e])
qed

text \<open>
  \<^bold>\<open>C6\<close>, in the form that holds of the code.
  Once both pipelines run: if the \<open>select\<close> takes the broadcast
  pipeline's signal, the cancel function is called and the call fails with an internal
  error that carries the signal; if it takes the fan-in pipeline's signal, the cancel
  function is not called and the call returns \<open>nil\<close> for \<open>io.EOF\<close> and the signal
  itself otherwise, so it completes successfully exactly when the signal is \<open>io.EOF\<close>
  or \<open>nil\<close>.
\<close>

theorem handler_draining:
  assumes "method_name srv = Some name"
    and "route_err (director (stream_ctx srv) name) = None"
    and "out_ctx (director (stream_ctx srv) name) = Some oc"
    and "new_client_streams name (backend_conns (director (stream_ctx srv) name)) = (ss, None)"
  shows "(select2 (s2c_ret (forwardServerToClients (take n (down_recv_script srv)) ss))
                  (c2s_ret (forwardClientsToServerUnary srv ss sched)) first = Some (S2C e) \<longrightarrow>
            result (handler director srv n sched first) =
              Returns (Some (Errorf Internal ''failed proxying s2c: %v'' [e])) \<and>
            cancel_called (handler director srv n sched first)) \<and>
         (select2 (s2c_ret (forwardServerToClients (take n (down_recv_script srv)) ss))
                  (c2s_ret (forwardClientsToServerUnary srv ss sched)) first = Some (C2S e) \<longrightarrow>
            result (handler director srv n sched first) = Returns (if e = Some EOF then None else e) \<and>
            \<not> cancel_called (handler director srv n sched first) \<and>
            (result (handler director srv n sched first) = Returns None \<longleftrightarrow> e = Some EOF \<or> e = None))"
  by (auto simp: handler_streaming[where director = director, OF assms])

text \<open>
  A call whose downstream receive fails, and a call that completes.
\<close>

theorem handler_draining_witness:
  "result (handler (route_to [backend_replying [65]])
             (version_call\<lparr>down_recv_script := [RecvError (Failure ''connection reset'')]\<rparr>) 1 [] True) =
     Returns (Some (Errorf Internal ''failed proxying s2c: %v'' [Some (Failure ''connection reset'')])) \<and>
   cancel_called (handler (route_to [backend_replying [65]])
             (version_call\<lparr>down_recv_script := [RecvError (Failure ''connection reset'')]\<rparr>) 1 [] True) \<and>
   result (handler (route_to [backend_replying [65]]) version_call 2 one_then_merge True) = Returns None \<and>
   \<not> cancel_called (handler (route_to [backend_replying [65]]) version_call 2 one_then_merge True)"
proof -
  let ?name = "''/machine.Machine/Version''"
  let ?ss = "[backend_replying [65]]"
  let ?srv = "version_call\<lparr>down_recv_script := [RecvError (Failure ''connection reset'')]\<rparr>"
  have m: "method_name version_call = Some ?name" "method_name ?srv = Some ?name"
    by (simp_all add: version_call_def)
  have a: "route_err (route_to ?ss (stream_ctx srv) ?name) = None"
    "out_ctx (route_to ?ss (stream_ctx srv) ?name) = Some (stream_ctx srv)"
    "new_client_streams ?name (backend_conns (route_to ?ss (stream_ctx srv) ?name)) = (?ss, None)" for srv
    by (simp_all add: route_to_def)
  have s1: "select2 (s2c_ret (forwardServerToClients (take 1 (down_recv_script ?srv)) ?ss))
                    (c2s_ret (forwardClientsToServerUnary ?srv ?ss [])) True =
              Some (S2C (Some (Failure ''connection reset'')))"
    by code_simp
  have s2: "select2 (s2c_ret (forwardServerToClients (take 2 (down_recv_script version_call)) ?ss))
                    (c2s_ret (forwardClientsToServerUnary version_call ?ss one_then_merge)) True =
              Some (C2S None)"
    by code_simp
  from handler_draining[where director = "route_to ?ss", OF m(2) a, of 1 "[]" True "Some (Failure ''connection reset'')"] s1
       handler_draining[where director = "route_to ?ss", OF m(1) a, of 2 one_then_merge True None] s2
  show ?thesis by simp
qed

text \<open>
  Success is not tied to \<open>io.EOF\<close>: here the fan-in pipeline signals \<open>nil\<close>, the
  result of sending the merged frame, and the call completes successfully.
\<close>

theorem nil_signal_counterexample:
  "select2 (s2c_ret (forwardServerToClients (take 2 (down_recv_script version_call)) [backend_replying [65]]))
           (c2s_ret (forwardClientsToServerUnary version_call [backend_replying [65]] one_then_merge)) False =
     Some (C2S None) \<and>
   None \<noteq> Some EOF \<and>
   result (handler (route_to [backend_replying [65]]) version_call 2 one_then_merge False) = Returns None"
  by code_simp

text \<open>
  \<^bold>\<open>C3\<close>, in the form that holds of the code.
  If opening any backend stream fails, the handler returns the
  error of the first stream that failed to open; the later streams are not opened and
  neither pipeline is started. Once all streams are open, a failed write to a backend
  does not end the call: whenever the handler returns, either the cancel function was
  called and the result is the internal error carrying a downstream receive error other
  than \<open>io.EOF\<close>, or the cancel function was not called and the result comes from the
  fan-in signal, the result of sending the merged frame.
\<close>

theorem handler_backend_failures:
  assumes "method_name srv = Some name"
    and "route_err (director (stream_ctx srv) name) = None"
    and "out_ctx (director (stream_ctx srv) name) = Some oc"
  shows "(\<forall>c \<in> set (backend_conns (director (stream_ctx srv) name)). \<forall>e0.
            new_client_stream c name = Inl e0 \<longrightarrow>
            (\<exists>e ss. result (handler director srv n sched first) = Returns (Some e) \<and>
                    client_streams (handler director srv n sched first) = ss \<and>
                    length ss < length (backend_conns (director (stream_ctx srv) name)) \<and>
                    new_client_stream (backend_conns (director (stream_ctx srv) name) ! length ss) name = Inl e \<and>
                    (\<forall>k < length ss.
                        new_client_stream (backend_conns (director (stream_ctx srv) name) ! k) name = Inr (ss ! k)) \<and>
                    s2c_pipeline (handler director srv n sched first) = None \<and>
                    c2s_pipeline (handler director srv n sched first) = None)) \<and>
         (\<forall>ss x. new_client_streams name (backend_conns (director (stream_ctx srv) name)) = (ss, None) \<and>
                 result (handler director srv n sched first) = Returns x \<longrightarrow>
            (cancel_called (handler director srv n sched first) \<and>
               (\<exists>e. e \<noteq> EOF \<and> first_error (take n (down_recv_script srv)) = Some e \<and>
                    x = Some (Errorf Internal ''failed proxying s2c: %v'' [Some e]))) \<or>
            (\<not> cancel_called (handler director srv n sched first) \<and>
               (\<exists>m. sent_frames (events (forwardClientsToServerUnary srv ss sched)) = [m] \<and>
                    x = (if send_msg_result srv m = Some EOF then None else send_msg_result srv m))))"
proof (intro conjI ballI allI impI)
  fix c e0
  assume c: "c \<in> set (backend_conns (director (stream_ctx srv) name))"
    and e0: "new_client_stream c name = Inl e0"
  obtain ss r where o: "new_client_streams name (backend_conns (director (stream_ctx srv) name)) = (ss, r)"
    by (cases "new_client_streams name (backend_conns (director (stream_ctx srv) name))")
  have "r \<noteq> None"
  proof
    assume "r = None"
    with new_client_streams_ok[OF o[unfolded this] c] e0 show False by simp
  qed
  then obtain e where r: "r = Some e" by blast
  from new_client_streams_error[OF o[unfolded r]] handler_open_failure[where director = director, OF assms o[unfolded r]]
  show "\<exists>e ss. result (handler director srv n sched first) = Returns (Some e) \<and>
                    client_streams (handler director srv n sched first) = ss \<and>
                    length ss < length (backend_conns (director (stream_ctx srv) name)) \<and>
                    new_client_stream (backend_conns (director (stream_ctx srv) name) ! length ss) name = Inl e \<and>
                    (\<forall>k < length ss.
                        new_client_stream (backend_conns (director (stream_ctx srv) name) ! k) name = Inr (ss ! k)) \<and>
                    s2c_pipeline (handler director srv n sched first) = None \<and>
                    c2s_pipeline (handler director srv n sched first) = None"
    by simp
next
  fix ss x
  assume a: "new_client_streams name (backend_conns (director (stream_ctx srv) name)) = (ss, None) \<and>
                 result (handler director srv n sched first) = Returns x"
  define s2c where "s2c = forwardServerToClients (take n (down_recv_script srv)) ss"
  define c2s where "c2s = forwardClientsToServerUnary srv ss sched"
  note h = handler_streaming[where director = director, OF assms conjunct1[OF a], of n sched first, folded s2c_def c2s_def]
  have s2c: "chan_ready (s2c_ret s2c) = Some v \<Longrightarrow>
               \<exists>e. v = Some e \<and> e \<noteq> EOF \<and> first_error (take n (down_recv_script srv)) = Some e" for v
    by (auto simp: s2c_def broadcast_ret chan_ready_def split: option.splits if_splits)
  have "ret_inv srv c2s" unfolding c2s_def by (rule forwardClientsToServerUnary_ret)
  then have c2s: "chan_ready (c2s_ret c2s) = Some v \<Longrightarrow>
               \<exists>m. sent_frames (events c2s) = [m] \<and> v = send_msg_result srv m" for v
    by (cases "coordinator c2s") (auto simp: ret_inv_def chan_ready_def split: list.splits if_splits)
  show "(cancel_called (handler director srv n sched first) \<and>
               (\<exists>e. e \<noteq> EOF \<and> first_error (take n (down_recv_script srv)) = Some e \<and>
                    x = Some (Errorf Internal ''failed proxying s2c: %v'' [Some e]))) \<or>
            (\<not> cancel_called (handler director srv n sched first) \<and>
               (\<exists>m. sent_frames (events (forwardClientsToServerUnary srv ss sched)) = [m] \<and>
                    x = (if send_msg_result srv m = Some EOF then None else send_msg_result srv m)))"
  proof (cases "select2 (s2c_ret s2c) (c2s_ret c2s) first")
    case None
    with h a show ?thesis by simp
  next
    case (Some sel)
    show ?thesis
    proof (cases sel)
      case (S2C v)
      with Some have "chan_ready (s2c_ret s2c) = Some v"
        by (auto simp: select2_def split: option.splits if_splits)
      from s2c[OF this] h a Some S2C show ?thesis by auto
    next
      case (C2S v)
      with Some have "chan_ready (c2s_ret c2s) = Some v"
        by (auto simp: select2_def split: option.splits if_splits)
      from c2s[OF this] h a Some C2S show ?thesis by (auto simp: c2s_def)
    qed
  qed
qed

text \<open>
  A route whose second connection refuses the stream, and a route whose first backend
  refuses the write.
\<close>

theorem handler_backend_failures_witness:
  "(\<exists>e. result (handler route_with_unreachable version_call 2 both_then_merge True) = Returns (Some e)) \<and>
   s2c_pipeline (handler route_with_unreachable version_call 2 both_then_merge True) = None \<and>
   c2s_pipeline (handler route_with_unreachable version_call 2 both_then_merge True) = None \<and>
   result (handler (route_to [backend_refusing_writes, backend_replying [66]]) version_call 2
             both_then_merge False) = Returns None \<and>
   (\<exists>m. sent_frames (events (forwardClientsToServerUnary version_call
             [backend_refusing_writes, backend_replying [66]] both_then_merge)) = [m])"
proof -
  let ?name = "''/machine.Machine/Version''"
  have m: "method_name version_call = Some ?name"
    by (simp add: version_call_def)
  have a: "route_err (route_with_unreachable (stream_ctx version_call) ?name) = None"
    "out_ctx (route_with_unreachable (stream_ctx version_call) ?name) = Some (stream_ctx version_call)"
    by (simp_all add: route_with_unreachable_def)
  have c: "\<lparr>new_client_stream = (\<lambda>m. Inl (Failure ''connection refused''))\<rparr>
             \<in> set (backend_conns (route_with_unreachable (stream_ctx version_call) ?name))"
    by (simp add: route_with_unreachable_def)
  from handler_backend_failures[where director = route_with_unreachable, OF m a, of 2 both_then_merge True] c
  have 1: "(\<exists>e. result (handler route_with_unreachable version_call 2 both_then_merge True) = Returns (Some e)) \<and>
   s2c_pipeline (handler route_with_unreachable version_call 2 both_then_merge True) = None \<and>
   c2s_pipeline (handler route_with_unreachable version_call 2 both_then_merge True) = None"
    by fastforce
  let ?ss = "[backend_refusing_writes, backend_replying [66]]"
  have b: "route_err (route_to ?ss (stream_ctx version_call) ?name) = None"
    "out_ctx (route_to ?ss (stream_ctx version_call) ?name) = Some (stream_ctx version_call)"
    by (simp_all add: route_to_def)
  have o: "new_client_streams ?name (backend_conns (route_to ?ss (stream_ctx version_call) ?name)) = (?ss, None)"
    by (simp add: route_to_def)
  have r: "result (handler (route_to ?ss) version_call 2 both_then_merge False) = Returns None"
    by code_simp
  have nc: "\<not> cancel_called (handler (route_to ?ss) version_call 2 both_then_merge False)"
    by code_simp
  from handler_backend_failures[where director = "route_to ?ss", OF m b, of 2 both_then_merge False] o r nc
  have 2: "\<exists>m. sent_frames (events (forwardClientsToServerUnary version_call ?ss both_then_merge)) = [m]"
    by blast
  from 1 2 r show ?thesis by blast
qed

text \<open>
  A failed write does not abort the call: the send to the first backend fails, the call
  completes successfully, and the cancel function is not called.
\<close>

theorem write_failure_counterexample:
  "map sendlog (destinations (forwardServerToClients (take 2 (down_recv_script version_call))
       [backend_refusing_writes, backend_replying [66]])) =
     [[OpSendMsg \<lparr>payload = []\<rparr> (Some (Failure ''write failed'')), OpCloseSend], [OpCloseSend]] \<and>
   result (handler (route_to [backend_refusing_writes, backend_replying [66]]) version_call 2
             both_then_merge True) = Returns None \<and>
   \<not> cancel_called (handler (route_to [backend_refusing_writes, backend_replying [66]]) version_call 2
             both_then_merge True)"
  by code_simp

lemma no_sources_exited:
  assumes "followers st = []" and "coordinator st = CoordinatorExited"
  shows "c2s_run dst sched st = st"
proof (induction sched)
  case Nil
  show ?case by simp
next
  case (Cons g gs)
  have "c2s_step dst g st = None"
    using assms by (cases g) (simp_all add: c2s_step_def coordinator_step_def)
  with Cons show ?case by simp
qed

lemma no_sources_at_ret_send:
  assumes "followers st = []" and "coordinator st = AtRetSend r" and "\<not> panicked st"
    and "c2s_ret st = make_chan 1" and "1 \<le> count_list sched Coordinator"
  shows "c2s_run dst sched st = st\<lparr>c2s_ret := \<lparr>buf = [r], cap = 1, closed = False\<rparr>,
                                      coordinator := CoordinatorExited\<rparr>"
  using assms(5)
proof (induction sched)
  case Nil
  then show ?case by simp
next
  case (Cons g gs)
  show ?case
  proof (cases g)
    case (Follower i)
    then have "c2s_step dst g st = None" using assms(1) by (simp add: c2s_step_def)
    with Cons Follower show ?thesis by simp
  next
    case Coordinator
    then have "c2s_step dst g st = Some (st\<lparr>c2s_ret := \<lparr>buf = [r], cap = 1, closed = False\<rparr>,
                                      coordinator := CoordinatorExited\<rparr>)"
      using assms(2,3,4) by (simp add: c2s_step_def coordinator_step_def chan_send_def make_chan_def)
    then show ?thesis using assms(1) by (simp add: no_sources_exited)
  qed
qed

lemma no_sources_run:
  assumes "2 \<le> count_list sched Coordinator"
  shows "c2s_run dst sched (c2s_init []) =
           \<lparr>followers = [], payloadCh = \<lparr>buf = [], cap = 0, closed = True\<rparr>,
            coordinator = CoordinatorExited,
            c2s_ret = \<lparr>buf = [send_msg_result dst \<lparr>payload = []\<rparr>], cap = 1, closed = False\<rparr>,
            events = [EvSendMsg \<lparr>payload = []\<rparr>], panicked = False\<rparr>"
  using assms
proof (induction sched)
  case Nil
  then show ?case by simp
next
  case (Cons g gs)
  show ?case
  proof (cases g)
    case (Follower i)
    then have "c2s_step dst g (c2s_init []) = None" by (simp add: c2s_step_def c2s_init_def)
    with Cons Follower show ?thesis by simp
  next
    case Coordinator
    define st where "st = (c2s_init [])\<lparr>payloadCh := \<lparr>buf = [], cap = 0, closed = True\<rparr>,
                            events := [EvSendMsg \<lparr>payload = []\<rparr>],
                            coordinator := AtRetSend (send_msg_result dst \<lparr>payload = []\<rparr>)\<rparr>"
    have step: "c2s_step dst g (c2s_init []) = Some st"
      using Coordinator
      by (simp add: c2s_step_def coordinator_step_def c2s_init_def make_chan_def merge_payloads_def st_def Let_def)
    have "1 \<le> count_list gs Coordinator" using Cons.prems Coordinator by simp
    from no_sources_at_ret_send[OF _ _ _ _ this, of st "send_msg_result dst \<lparr>payload = []\<rparr>" dst] step
    show ?thesis by (simp add: st_def c2s_init_def make_chan_def)
  qed
qed

text \<open>
  \<^bold>\<open>C5\<close>, in the form that holds of the code.
  When the Director returns no connection and no error, the handler
  does not treat this as a routing failure: it opens no backend stream, the fan-in
  coordinator sends one empty merged frame downstream, and when the \<open>select\<close> takes the
  fan-in signal the call returns the result of that send, which is success when the send
  succeeded.
\<close>

theorem handler_no_backends:
  assumes "method_name srv = Some name"
    and "route_err (director (stream_ctx srv) name) = None"
    and "out_ctx (director (stream_ctx srv) name) = Some oc"
    and "backend_conns (director (stream_ctx srv) name) = []"
    and "2 \<le> count_list sched Coordinator"
  shows "client_streams (handler director srv n sched False) = [] \<and>
         (\<exists>c2s. c2s_pipeline (handler director srv n sched False) = Some c2s \<and>
                sent_frames (events c2s) = [\<lparr>payload = []\<rparr>]) \<and>
         result (handler director srv n sched False) =
           Returns (if send_msg_result srv \<lparr>payload = []\<rparr> = Some EOF then None
                    else send_msg_result srv \<lparr>payload = []\<rparr>)"
proof -
  have o: "new_client_streams name (backend_conns (director (stream_ctx srv) name)) = ([], None)"
    using assms(4) by simp
  have run: "forwardClientsToServerUnary srv [] sched =
           \<lparr>followers = [], payloadCh = \<lparr>buf = [], cap = 0, closed = True\<rparr>,
            coordinator = CoordinatorExited,
            c2s_ret = \<lparr>buf = [send_msg_result srv \<lparr>payload = []\<rparr>], cap = 1, closed = False\<rparr>,
            events = [EvSendMsg \<lparr>payload = []\<rparr>], panicked = False\<rparr>"
    unfolding forwardClientsToServerUnary_def by (rule no_sources_run[OF assms(5)])
  have sel: "select2 c (c2s_ret (forwardClientsToServerUnary srv [] sched)) False =
               Some (C2S (send_msg_result srv \<lparr>payload = []\<rparr>))" for c
    by (simp add: run select2_def chan_ready_def split: option.splits)
  show ?thesis
    unfolding handler_streaming[where director = director, OF assms(1,2,3) o] sel
    by (simp add: run)
qed

text \<open>
  A call routed to no backend at all.
\<close>

theorem handler_no_backends_witness:
  "client_streams (handler (route_to []) version_call 1 [Coordinator, Follower 0, Coordinator] False) = [] \<and>
   result (handler (route_to []) version_call 1 [Coordinator, Follower 0, Coordinator] False) = Returns None"
proof -
  have m: "method_name version_call = Some ''/machine.Machine/Version''"
    by (simp add: version_call_def)
  have a: "route_err (route_to [] (stream_ctx version_call) ''/machine.Machine/Version'') = None"
    "out_ctx (route_to [] (stream_ctx version_call) ''/machine.Machine/Version'') = Some (stream_ctx version_call)"
    "backend_conns (route_to [] (stream_ctx version_call) ''/machine.Machine/Version'') = []"
    by (simp_all add: route_to_def)
  have c: "2 \<le> count_list [Coordinator, Follower 0, Coordinator] Coordinator"
    by simp
  have s: "send_msg_result version_call m = None" for m
    by (simp add: version_call_def)
  from handler_no_backends[where director = "route_to []", OF m a c, of 1] show ?thesis
    by (simp add: s)
qed

text \<open>
  A route with zero connections and a \<open>nil\<close> error, on which the call completes
  successfully.
\<close>

theorem no_backends_counterexample:
  "backend_conns (route_to [] (stream_ctx version_call) ''/machine.Machine/Version'') = [] \<and>
   route_err (route_to [] (stream_ctx version_call) ''/machine.Machine/Version'') = None \<and>
   result (handler (route_to []) version_call 2 [Coordinator, Coordinator] False) = Returns None"
  by code_simp

section \<open>Proofs: the sample Director\<close>

text \<open>
  \<^bold>\<open>C10\<close>. With incoming metadata the sample Director dials \<open>:8051\<close> and \<open>:8052\<close>,
  returns the outgoing context with a copy of the metadata and both connections, and
  returns the first dial error that is not \<open>nil\<close>, hence an error exactly when one of
  the two dials fails, the connection list beside it. Without incoming metadata it dials
  nothing and returns no context, no connections and the error \<open>Unimplemented\<close>,
  \<open>Unknown method\<close>.
\<close>

theorem Director_routes:
  "(incoming_md ctx = Some md \<longrightarrow>
      Director dial ctx fullMethodName =
        (\<lparr>out_ctx = Some (ctx\<lparr>outgoing_md := Some md\<rparr>),
          backend_conns = [fst (dial '':8051''), fst (dial '':8052'')],
          route_err = (if snd (dial '':8051'') \<noteq> None then snd (dial '':8051'') else snd (dial '':8052''))\<rparr>,
         ['':8051'', '':8052'']) \<and>
      (route_err (fst (Director dial ctx fullMethodName)) \<noteq> None \<longleftrightarrow>
         snd (dial '':8051'') \<noteq> None \<or> snd (dial '':8052'') \<noteq> None)) \<and>
   (incoming_md ctx = None \<longrightarrow>
      Director dial ctx fullMethodName =
        (\<lparr>out_ctx = None, backend_conns = [],
          route_err = Some (Errorf Unimplemented ''Unknown method'' [])\<rparr>, []))"
  by (auto simp: Director_def Let_def split: prod.splits)

text \<open>
  The first endpoint down; and a call without metadata.
\<close>

theorem Director_routes_witness:
  "Director dial_first_down \<lparr>incoming_md = Some [(''user'', [''a''])], outgoing_md = None\<rparr>
       ''/machine.Machine/Version'' =
     (\<lparr>out_ctx = Some \<lparr>incoming_md = Some [(''user'', [''a''])], outgoing_md = Some [(''user'', [''a''])]\<rparr>,
       backend_conns = [0, 1], route_err = Some (Failure ''connection refused'')\<rparr>,
      ['':8051'', '':8052'']) \<and>
   Director dial_first_down \<lparr>incoming_md = None, outgoing_md = None\<rparr> ''/machine.Machine/Version'' =
     (\<lparr>out_ctx = None, backend_conns = [],
       route_err = Some (Errorf Unimplemented ''Unknown method'' [])\<rparr>, [])"
proof -
  have a: "incoming_md \<lparr>incoming_md = Some [(''user'', [''a''])], outgoing_md = None\<rparr> = Some [(''user'', [''a''])]"
    and b: "incoming_md \<lparr>incoming_md = None, outgoing_md = None\<rparr> = None"
    by simp_all
  from Director_routes[of "\<lparr>incoming_md = Some [(''user'', [''a''])], outgoing_md = None\<rparr>"
          "[(''user'', [''a''])]" dial_first_down "''/machine.Machine/Version''"] a
       Director_routes[of "\<lparr>incoming_md = None, outgoing_md = None\<rparr>" _ dial_first_down
          "''/machine.Machine/Version''"] b
  show ?thesis by (simp add: dial_first_down_def)
qed

section \<open>Proofs: the synchronized stream wrapper\<close>



lemma is_locked_set_locked [simp]:
  "is_locked m (set_locked m' b w) = (if m = m' then b else is_locked m w)"
  by (cases m; cases m') (simp_all add: is_locked_def set_locked_def)

lemma callers_set_locked [simp]: "callers (set_locked m b w) = callers w"
  by (cases m) (simp_all add: set_locked_def)

lemma is_locked_callers_update [simp]: "is_locked m (w\<lparr>callers := cs\<rparr>) = is_locked m w"
  by (simp add: is_locked_def split: mutex.splits)







end
